theory Spec2Isabelle
  imports Main "HOL-Library.Word" "HOL-Library.Signed_Division"
begin

section \<open>Go values\<close>

text \<open>
  Go's \<open>int\<close> is a two's complement machine integer; on the 64-bit targets of Go 1.21
  (the version named in go.mod) it has 64 bits. \<open>+\<close>, \<open>-\<close> and \<open>*\<close> wrap around
  silently, comparisons are signed (\<open>\<le>s\<close>, \<open><s\<close>), and \<open>/\<close> and \<open>%\<close> truncate
  towards zero and panic on a zero divisor.
\<close>

type_synonym go_int = "64 word"

text \<open>
  The run-time panics of the operations used: "integer divide by zero", "invalid memory
  address or nil pointer dereference", "send on closed channel" and "close of closed
  channel".
\<close>

datatype panic =
  IntegerDivideByZero | NilDereference | SendOnClosedChannel | CloseOfClosedChannel

text \<open>
  The value of \<open>x / y\<close> and \<open>x % y\<close> for \<open>y \<noteq> 0\<close>: the truncated quotient and
  remainder of the signed values, reduced to 64 bits.
\<close>

definition quo64 :: "go_int \<Rightarrow> go_int \<Rightarrow> go_int" where
  "quo64 x y = word_of_int (sint x sdiv sint y)"

definition rem64 :: "go_int \<Rightarrow> go_int \<Rightarrow> go_int" where
  "rem64 x y = word_of_int (sint x smod sint y)"

text \<open>The operators \<open>/\<close> and \<open>%\<close> themselves, with the run-time panic.\<close>

definition go_quo :: "go_int \<Rightarrow> go_int \<Rightarrow> panic + go_int" where
  "go_quo x y = (if y = 0 then Inl IntegerDivideByZero else Inr (quo64 x y))"

definition go_rem :: "go_int \<Rightarrow> go_int \<Rightarrow> panic + go_int" where
  "go_rem x y = (if y = 0 then Inl IntegerDivideByZero else Inr (rem64 x y))"

text \<open>
  A non-nil \<open>error\<close> made by \<open>fmt.Errorf\<close> carries its formatted message; the nil
  error is \<open>None\<close>.
\<close>

datatype error = Errorf (Error: string)

subsection \<open>Variables in memory\<close>

text \<open>
  Variables whose identity matters (a variable captured by a closure, a variable whose
  address is taken, the parameter that receives a copy) live in a store: a list of
  cells, the address of a cell being its index. A new variable is a new cell at the end
  of the store, so it is distinct from every variable there is. Going through an
  address that names no cell is the nil dereference.
\<close>

type_synonym addr = nat

type_synonym 'v store = "'v list"

definition new :: "'v \<Rightarrow> 'v store \<Rightarrow> addr \<times> 'v store" where
  "new v s = (length s, s @ [v])"

definition load :: "addr \<Rightarrow> 'v store \<Rightarrow> panic + 'v" where
  "load p s = (if p < length s then Inr (s ! p) else Inl NilDereference)"

definition modify :: "addr \<Rightarrow> ('v \<Rightarrow> 'v) \<Rightarrow> 'v store \<Rightarrow> panic + 'v store" where
  "modify p f s = (if p < length s then Inr (s[p := f (s ! p)]) else Inl NilDereference)"

section \<open>Package basics\<close>

subsection \<open>AllOperations\<close>

text \<open>
  Five statements in a row; the division and the remainder are made with no check of
  \<open>y\<close> beforehand, so either can panic, the division first.
\<close>

definition AllOperations ::
  "go_int \<Rightarrow> go_int \<Rightarrow> panic + (go_int \<times> go_int \<times> go_int \<times> go_int \<times> go_int)" where
  "AllOperations x y =
     (let sum' = x + y;
          difference = x - y;
          product' = x * y
      in case go_quo x y of
           Inl p \<Rightarrow> Inl p
         | Inr quotient' \<Rightarrow>
             (case go_rem x y of
                Inl p \<Rightarrow> Inl p
              | Inr remainder \<Rightarrow> Inr (sum', difference, product', quotient', remainder)))"

section \<open>Package functions\<close>

subsection \<open>CalculateWithError\<close>

text \<open>
  The \<open>switch\<close> on the operation, in the order of its cases. The two early returns
  hand back the zero value and an error; \<open>fmt.Errorf("unknown operation: %s", operation)\<close>
  formats to the prefix followed by the operation string.
\<close>

definition CalculateWithError ::
  "go_int \<Rightarrow> go_int \<Rightarrow> string \<Rightarrow> panic + (go_int \<times> error option)" where
  "CalculateWithError a b operation =
     (if operation = ''add'' then Inr (a + b, None)
      else if operation = ''subtract'' then Inr (a - b, None)
      else if operation = ''multiply'' then Inr (a * b, None)
      else if operation = ''divide'' then
        (if b = 0 then Inr (0, Some (Errorf ''division by zero''))
         else (case go_quo a b of
                 Inl p \<Rightarrow> Inl p
               | Inr result \<Rightarrow> Inr (result, None)))
      else Inr (0, Some (Errorf (''unknown operation: '' @ operation))))"

subsection \<open>FunctionWithMultipleReturns\<close>

text \<open>
  The most negative \<open>int\<close>, \<open>math.MinInt\<close>.
\<close>

definition MinInt :: go_int where
  "MinInt = - 9223372036854775808"

text \<open>
  The zero divisor is answered with \<open>(0, 0)\<close> before any division is made; then the
  quotient and the remainder are computed in that order.
\<close>

definition FunctionWithMultipleReturns ::
  "go_int \<Rightarrow> go_int \<Rightarrow> panic + (go_int \<times> go_int)" where
  "FunctionWithMultipleReturns dividend divisor =
     (if divisor = 0 then Inr (0, 0)
      else (case go_quo dividend divisor of
              Inl p \<Rightarrow> Inl p
            | Inr quotient' \<Rightarrow>
                (case go_rem dividend divisor of
                   Inl p \<Rightarrow> Inl p
                 | Inr remainder \<Rightarrow> Inr (quotient', remainder))))"

subsection \<open>RecursiveFactorial\<close>

text \<open>
  The recursion on a signed 64-bit argument. It is well-founded on the signed value of
  \<open>n\<close>: past the base case \<open>1 < n\<close>, so \<open>n - 1\<close> does not wrap around.
\<close>

function RecursiveFactorial :: "go_int \<Rightarrow> go_int" where
  "RecursiveFactorial n = (if n \<le>s 1 then 1 else n * RecursiveFactorial (n - 1))"
  by pat_completeness auto
termination
proof (relation "measure (\<lambda>n. nat (sint n))")
  show "wf (measure (\<lambda>n :: go_int. nat (sint n)))" by simp
next
  fix n :: go_int
  assume "\<not> n \<le>s 1"
  then have gt: "1 < sint n" by (simp add: word_sle_eq)
  have "sint n < 2 ^ 63" using sint_lt [of n] by simp
  with gt have "signed_take_bit 63 (sint n - 1) = sint n - 1"
    by (intro signed_take_bit_int_eq_self) simp_all
  then have "sint (word_of_int (sint n - 1) :: go_int) = sint n - 1"
    by (simp only: sint_sbintrunc') simp
  moreover have eq: "(word_of_int (sint n - 1) :: go_int) = n - 1" by simp
  ultimately have "sint (n - 1) = sint n - 1" by (simp only: eq)
  with gt show "(n - 1, n) \<in> measure (\<lambda>n. nat (sint n))" by simp
qed

declare RecursiveFactorial.simps [simp del]

text \<open>
  The same body with a bound on the depth of the call stack: \<open>fuel\<close> counts the
  activations of \<open>RecursiveFactorial\<close> that may be open at once, and \<open>None\<close>
  says that the bound was reached before the base case.
\<close>

fun RecursiveFactorial_fuel :: "nat \<Rightarrow> go_int \<Rightarrow> go_int option" where
  "RecursiveFactorial_fuel 0 n = None"
| "RecursiveFactorial_fuel (Suc fuel) n =
     (if n \<le>s 1 then Some 1
      else (case RecursiveFactorial_fuel fuel (n - 1) of
              None \<Rightarrow> None
            | Some r \<Rightarrow> Some (n * r)))"

subsection \<open>Calculator\<close>

text \<open>
  A struct with one field. \<open>Add\<close> and \<open>GetLastResult\<close> have a value receiver: the
  call copies the struct into the new variable \<open>c\<close> of the method, and the method
  works on that copy. \<open>AddAndStore\<close> has a pointer receiver: it is given the address
  of the caller's struct and writes through it.
\<close>

record Calculator =
  LastResult :: go_int

definition Add ::
  "Calculator \<Rightarrow> go_int \<Rightarrow> go_int \<Rightarrow> Calculator store \<Rightarrow> go_int \<times> Calculator store" where
  "Add receiver a b s =
     (let (c, s) = new receiver s;
          result = a + b;
          s = s[c := (s ! c)\<lparr>LastResult := result\<rparr>]
      in (result, s))"

definition AddAndStore ::
  "addr \<Rightarrow> go_int \<Rightarrow> go_int \<Rightarrow> Calculator store \<Rightarrow> panic + (go_int \<times> Calculator store)" where
  "AddAndStore c a b s =
     (let result = a + b
      in case modify c (\<lambda>v. v\<lparr>LastResult := result\<rparr>) s of
           Inl p \<Rightarrow> Inl p
         | Inr s \<Rightarrow> Inr (result, s))"

definition GetLastResult :: "Calculator \<Rightarrow> Calculator store \<Rightarrow> go_int \<times> Calculator store" where
  "GetLastResult receiver s =
     (let (c, s) = new receiver s
      in (LastResult (s ! c), s))"

subsection \<open>DemonstrateScope\<close>

text \<open>
  What \<open>fmt\<close> writes for the verb \<open>%d\<close>: the decimal digits of the signed value, with
  a minus sign for a negative one.
\<close>

function decimal :: "nat \<Rightarrow> string" where
  "decimal n =
     (if n < 10 then [''0123456789'' ! n]
      else decimal (n div 10) @ [''0123456789'' ! (n mod 10)])"
  by pat_completeness auto
termination
  by (relation "measure id") auto

definition format_d :: "go_int \<Rightarrow> string" where
  "format_d x =
     (if sint x < 0 then CHR ''-'' # decimal (nat (- sint x)) else decimal (nat (sint x)))"

text \<open>
  The package-level variables \<open>GlobalCounter\<close> and \<open>globalMessage\<close> with the values
  their declarations give them, and the text written to standard output so far.
\<close>

record package =
  GlobalCounter :: go_int
  globalMessage :: string
  stdout :: string

definition package_init :: package where
  "package_init =
     \<lparr>GlobalCounter = 0,
      globalMessage = ''This is a package-level variable'',
      stdout = []\<rparr>"

definition Print :: "string \<Rightarrow> package \<Rightarrow> package" where
  "Print text w = w\<lparr>stdout := stdout w @ text\<rparr>"

text \<open>
  The loop \<open>for i := 0; i < 3; i++\<close> at the end of \<open>DemonstrateScope\<close>, from the
  current value of \<open>i\<close>.
\<close>

function DemonstrateScope_loop :: "go_int \<Rightarrow> package \<Rightarrow> package" where
  "DemonstrateScope_loop i w =
     (if i <s 3 then
        (let loopVar = ''Loop iteration '' @ format_d i;
             w = Print (loopVar @ ''\<newline>'') w
         in DemonstrateScope_loop (i + 1) w)
      else w)"
  by pat_completeness auto
termination
proof (relation "measure (\<lambda>(i, w). nat (3 - sint i))")
  show "wf (measure (\<lambda>(i :: go_int, w :: package). nat (3 - sint i)))" by simp
next
  fix i :: go_int and w x xa :: package
  assume "i <s 3"
  then have lt: "sint i < 3" by (simp add: word_sless_alt)
  have "- (2 ^ 63) \<le> sint i" using sint_ge [of i] by simp
  with lt have "signed_take_bit 63 (sint i + 1) = sint i + 1"
    by (intro signed_take_bit_int_eq_self) simp_all
  then have "sint (word_of_int (sint i + 1) :: go_int) = sint i + 1"
    by (simp only: sint_sbintrunc') simp
  moreover have eq: "(word_of_int (sint i + 1) :: go_int) = i + 1" by simp
  ultimately have "sint (i + 1) = sint i + 1" by (simp only: eq)
  with lt show "((i + 1, xa), (i, w)) \<in> measure (\<lambda>(i, w). nat (3 - sint i))" by simp
qed

declare DemonstrateScope_loop.simps [simp del]
declare decimal.simps [simp del]

text \<open>
  The body of \<open>DemonstrateScope\<close>, statement by statement. \<open>GlobalCounter++\<close> writes
  the package variable. The short declaration \<open>globalMessage := ...\<close> declares a
  variable of the function's own scope (written \<open>globalMessage'\<close> here), and the two
  prints after it read that variable; so does \<open>blockVar := ...\<close> in the inner block.
\<close>

definition DemonstrateScope :: "package \<Rightarrow> package" where
  "DemonstrateScope w =
     (let w = Print (''Global message: '' @ globalMessage w @ ''\<newline>'') w;
          w = Print (''Global counter before: '' @ format_d (GlobalCounter w) @ ''\<newline>'') w;
          w = w\<lparr>GlobalCounter := GlobalCounter w + 1\<rparr>;
          w = Print (''Global counter after increment: '' @ format_d (GlobalCounter w)
                @ ''\<newline>'') w;
          globalMessage' = ''I'm shadowing the global variable'';
          w = Print (''Local message (shadowing): '' @ globalMessage' @ ''\<newline>'') w;
          blockVar = ''I only exist in this block'';
          w = Print (''Block variable: '' @ blockVar @ ''\<newline>'') w;
          w = Print (''Can access local message: '' @ globalMessage' @ ''\<newline>'') w
      in DemonstrateScope_loop 0 w)"

subsection \<open>Closure\<close>

text \<open>
  \<open>Closure\<close> declares \<open>count := 0\<close>, a new variable at every call, and returns a
  function value that has captured it. All the function values it returns share one
  body, so such a value is represented by the address of its \<open>count\<close>.
\<close>

definition Closure :: "go_int store \<Rightarrow> addr \<times> go_int store" where
  "Closure s = new 0 s"

text \<open>
  Calling the returned function: \<open>count++\<close>, then \<open>return count\<close>.
\<close>

definition call :: "addr \<Rightarrow> go_int store \<Rightarrow> panic + (go_int \<times> go_int store)" where
  "call count s =
     (case modify count (\<lambda>v. v + 1) s of
        Inl p \<Rightarrow> Inl p
      | Inr s \<Rightarrow>
          (case load count s of
             Inl p \<Rightarrow> Inl p
           | Inr v \<Rightarrow> Inr (v, s)))"

text \<open>
  What a caller can do with counters, as \<open>TestClosure\<close> and the demo runner do: call
  \<open>Closure\<close> for a new counter, or invoke a counter it has. \<open>exec\<close> performs a
  sequence of such actions, in order, on the store as it is then, and records what each
  returned: the counter made, or the value that the counter invoked gave back.
  \<open>made\<close> lists the counters that were made and \<open>returned c\<close> the values that
  counter \<open>c\<close> returned, both in order. A sequence is well formed when it only invokes
  counters that exist at that point: \<open>n\<close> is the number of variables in the store.
\<close>

datatype action = Make | Invoke addr

datatype event = Made addr | Returned addr go_int

fun exec :: "action list \<Rightarrow> go_int store \<Rightarrow> panic + (event list \<times> go_int store)" where
  "exec [] s = Inr ([], s)"
| "exec (Make # as) s =
     (case Closure s of
        (counter, s) \<Rightarrow>
          (case exec as s of
             Inl p \<Rightarrow> Inl p
           | Inr (evs, s) \<Rightarrow> Inr (Made counter # evs, s)))"
| "exec (Invoke counter # as) s =
     (case call counter s of
        Inl p \<Rightarrow> Inl p
      | Inr (r, s) \<Rightarrow>
          (case exec as s of
             Inl p \<Rightarrow> Inl p
           | Inr (evs, s) \<Rightarrow> Inr (Returned counter r # evs, s)))"

fun made :: "event list \<Rightarrow> addr list" where
  "made [] = []"
| "made (Made c # evs) = c # made evs"
| "made (Returned c r # evs) = made evs"

fun returned :: "addr \<Rightarrow> event list \<Rightarrow> go_int list" where
  "returned c [] = []"
| "returned c (Made c' # evs) = returned c evs"
| "returned c (Returned c' r # evs) = (if c' = c then r # returned c evs else returned c evs)"

fun well_formed :: "nat \<Rightarrow> action list \<Rightarrow> bool" where
  "well_formed n [] = True"
| "well_formed n (Make # as) = well_formed (Suc n) as"
| "well_formed n (Invoke c # as) = (c < n \<and> well_formed n as)"

section \<open>Package collections\<close>

subsection \<open>ArrayBasics\<close>

text \<open>
  What \<open>fmt\<close> writes for an array (\<open>Println\<close>, or the verb \<open>%v\<close>): the elements
  between brackets, separated by single spaces.
\<close>

fun join :: "string list \<Rightarrow> string" where
  "join [] = []"
| "join [x] = x"
| "join (x # y # ys) = x @ '' '' @ join (y # ys)"

definition format_ints :: "go_int list \<Rightarrow> string" where
  "format_ints a = ''['' @ join (map format_d a) @ '']''"

definition format_strings :: "string list \<Rightarrow> string" where
  "format_strings a = ''['' @ join a @ '']''"

text \<open>
  The int arrays of \<open>ArrayBasics\<close> are variables in a store of arrays; the record
  names the addresses the function gave them, so that the final store can be read.
  An array is the list of its elements, and its length is fixed by its type.
  \<open>copyOfPrimes := primes\<close> declares a new variable and initialises it with the value
  of \<open>primes\<close>. All indices in the function are constants within the bounds.
\<close>

record ArrayBasics_vars =
  numbers :: addr
  primes :: addr
  sparse :: addr
  copyOfPrimes :: addr

text \<open>The loop \<open>for i, v := range primes\<close>, from index \<open>i\<close> on.\<close>

fun ArrayBasics_squares :: "go_int \<Rightarrow> go_int list \<Rightarrow> string" where
  "ArrayBasics_squares i [] = []"
| "ArrayBasics_squares i (v # vs) =
     format_d i @ '':'' @ format_d (v * v) @ '' '' @ ArrayBasics_squares (i + 1) vs"

definition ArrayBasics ::
  "go_int list store \<Rightarrow> ArrayBasics_vars \<times> go_int list store \<times> string" where
  "ArrayBasics s =
     (let (numbers, s) = new [0, 0, 0, 0, 0] s;
          out = ''  Zero-initialized array: '' @ format_ints (s ! numbers) @ ''\<newline>'';
          (primes, s) = new [2, 3, 5, 7, 11] s;
          out = out @ ''  Initialized array: '' @ format_ints (s ! primes) @ ''\<newline>'';
          colors = [''red'', ''green'', ''blue''];
          out = out @ ''  Auto-sized array (len='' @ format_d (of_nat (length colors)) @ ''): ''
                  @ format_strings colors @ ''\<newline>'';
          (sparse, s) = new [0, 10, 0, 0, 0, 50, 0, 0, 0, 90] s;
          out = out @ ''  Sparse array: '' @ format_ints (s ! sparse) @ ''\<newline>'';
          out = out @ ''  First prime: '' @ format_d (s ! primes ! 0) @ '', Last prime: ''
                  @ format_d (s ! primes ! (length (s ! primes) - 1)) @ ''\<newline>'';
          s = s[numbers := (s ! numbers)[2 := 42]];
          out = out @ ''  After modification: '' @ format_ints (s ! numbers) @ ''\<newline>'';
          (copyOfPrimes, s) = new (s ! primes) s;
          s = s[copyOfPrimes := (s ! copyOfPrimes)[0 := 100]];
          out = out @ ''  Original primes: '' @ format_ints (s ! primes) @ ''\<newline>'';
          out = out @ ''  Copy of primes: '' @ format_ints (s ! copyOfPrimes) @ ''\<newline>'';
          out = out @ ''  Squares: '';
          out = out @ ArrayBasics_squares 0 (s ! primes);
          out = out @ ''\<newline>''
      in (\<lparr>numbers = numbers, primes = primes, sparse = sparse, copyOfPrimes = copyOfPrimes\<rparr>,
          s, out))"

subsection \<open>modifyArrayCopy and modifyArrayPointer\<close>

text \<open>
  The parameter of \<open>modifyArrayCopy\<close> is an array: the call copies the argument into
  the new variable \<open>arr\<close>. The parameter of \<open>modifyArrayPointer\<close> is the address of
  the caller's array, and \<open>arr[0] = 999\<close> writes through it.
\<close>

definition modifyArrayCopy :: "go_int list \<Rightarrow> go_int list store \<Rightarrow> go_int list store" where
  "modifyArrayCopy a s =
     (let (arr, s) = new a s
      in s[arr := (s ! arr)[0 := 999]])"

definition modifyArrayPointer :: "addr \<Rightarrow> go_int list store \<Rightarrow> panic + go_int list store" where
  "modifyArrayPointer arr s = modify arr (\<lambda>a. a[0 := 999]) s"

section \<open>Package loops\<close>

subsection \<open>Channels\<close>

text \<open>
  A buffered channel of ints: the queue of values sent and not yet received, the
  capacity given to \<open>make\<close>, and whether \<open>close\<close> has been called. An operation that
  cannot proceed yet (a send on a full buffer, a receive on an empty open channel) has no
  result, \<open>None\<close>: the goroutine stays blocked at it. A send on a closed channel and
  a second close panic. \<open>range_recv\<close> is the receive that a \<open>range\<close> loop makes at
  the head of every iteration: the next value, or the end of the loop once the channel
  is closed and empty.
\<close>

record chan =
  buf :: "go_int list"
  cap :: nat
  is_closed :: bool

definition make_chan :: "nat \<Rightarrow> chan" where
  "make_chan n = \<lparr>buf = [], cap = n, is_closed = False\<rparr>"

definition send :: "go_int \<Rightarrow> chan \<Rightarrow> (panic + chan) option" where
  "send v ch =
     (if is_closed ch then Some (Inl SendOnClosedChannel)
      else if length (buf ch) < cap ch then Some (Inr (ch\<lparr>buf := buf ch @ [v]\<rparr>))
      else None)"

definition close :: "chan \<Rightarrow> panic + chan" where
  "close ch =
     (if is_closed ch then Inl CloseOfClosedChannel else Inr (ch\<lparr>is_closed := True\<rparr>))"

definition range_recv :: "chan \<Rightarrow> (go_int option \<times> chan) option" where
  "range_recv ch =
     (case buf ch of
        v # vs \<Rightarrow> Some (Some v, ch\<lparr>buf := vs\<rparr>)
      | [] \<Rightarrow> if is_closed ch then Some (None, ch) else None)"

subsection \<open>RangeOverChannel\<close>

text \<open>
  The function starts one goroutine and goes on as the consumer; the two run
  concurrently, so the function is a transition system. Each goroutine has a program
  counter:
  \<^item> the producer is at the head of \<open>for i := 1; i <= 5; i++\<close> with the current \<open>i\<close>
    (\<open>P_loop\<close>, where it sends \<open>i * 10\<close> if \<open>i \<le> 5\<close> and closes the channel otherwise),
    at its \<open>Printf\<close> after the send (\<open>P_print\<close>), finished, or panicked;
  \<^item> the consumer is at its first \<open>Sleep\<close>, at the \<open>Println\<close> of the header, at the
    head of \<open>for num := range numbers\<close>, at the \<open>Printf\<close> in the body with the value
    received, at the \<open>Sleep\<close> in the body, at the \<open>Println\<close> after the loop, or done.
  \<open>time.Sleep\<close> only delays a goroutine, so it is a step with no effect; which goroutine
  moves next is left open. \<open>sent\<close> and \<open>received\<close> record the values that went into
  and came out of the channel, in order, and \<open>printed\<close> the text written so far.
\<close>

datatype producer_pc = P_loop go_int | P_print go_int | P_done | P_panic panic

datatype consumer_pc = C_sleep | C_header | C_range | C_body go_int | C_pause | C_after | C_done

record state =
  producer :: producer_pc
  consumer :: consumer_pc
  numbers' :: chan
  sent :: "go_int list"
  received :: "go_int list"
  printed :: string

text \<open>
  The state after \<open>fmt.Println("Range over Channel:")\<close>, \<open>make(chan int, 5)\<close> and the
  \<open>go\<close> statement.
\<close>

definition RangeOverChannel_init :: state where
  "RangeOverChannel_init =
     \<lparr>producer = P_loop 1,
      consumer = C_sleep,
      numbers' = make_chan 5,
      sent = [],
      received = [],
      printed = ''Range over Channel:\<newline>''\<rparr>"

definition producer_step :: "state \<Rightarrow> state option" where
  "producer_step s =
     (case producer s of
        P_loop i \<Rightarrow>
          if i \<le>s 5 then
            (case send (i * 10) (numbers' s) of
               None \<Rightarrow> None
             | Some (Inl p) \<Rightarrow> Some (s\<lparr>producer := P_panic p\<rparr>)
             | Some (Inr ch) \<Rightarrow>
                 Some (s\<lparr>producer := P_print i, numbers' := ch, sent := sent s @ [i * 10]\<rparr>))
          else
            (case close (numbers' s) of
               Inl p \<Rightarrow> Some (s\<lparr>producer := P_panic p\<rparr>)
             | Inr ch \<Rightarrow> Some (s\<lparr>producer := P_done, numbers' := ch\<rparr>))
      | P_print i \<Rightarrow>
          Some (s\<lparr>producer := P_loop (i + 1),
                  printed := printed s @ ''  Sent: '' @ format_d (i * 10) @ ''\<newline>''\<rparr>)
      | P_done \<Rightarrow> None
      | P_panic p \<Rightarrow> None)"

definition consumer_step :: "state \<Rightarrow> state option" where
  "consumer_step s =
     (case consumer s of
        C_sleep \<Rightarrow> Some (s\<lparr>consumer := C_header\<rparr>)
      | C_header \<Rightarrow>
          Some (s\<lparr>consumer := C_range,
                  printed := printed s @ ''  Receiving values:\<newline>''\<rparr>)
      | C_range \<Rightarrow>
          (case range_recv (numbers' s) of
             None \<Rightarrow> None
           | Some (Some num, ch) \<Rightarrow>
               Some (s\<lparr>consumer := C_body num, numbers' := ch,
                       received := received s @ [num]\<rparr>)
           | Some (None, ch) \<Rightarrow> Some (s\<lparr>consumer := C_after\<rparr>))
      | C_body num \<Rightarrow>
          Some (s\<lparr>consumer := C_pause,
                  printed := printed s @ ''    Received: '' @ format_d num @ ''\<newline>''\<rparr>)
      | C_pause \<Rightarrow> Some (s\<lparr>consumer := C_range\<rparr>)
      | C_after \<Rightarrow>
          Some (s\<lparr>consumer := C_done,
                  printed := printed s @ ''  Channel closed, range loop ended\<newline>''\<rparr>)
      | C_done \<Rightarrow> None)"

text \<open>
  A panic in a goroutine ends the whole program. Otherwise every goroutine that is not
  blocked can make the next step.
\<close>

definition crashed :: "state \<Rightarrow> bool" where
  "crashed s = (case producer s of P_panic p \<Rightarrow> True | _ \<Rightarrow> False)"

definition steps :: "state \<Rightarrow> state list" where
  "steps s =
     (if crashed s then []
      else (case producer_step s of None \<Rightarrow> [] | Some t \<Rightarrow> [t]) @
           (case consumer_step s of None \<Rightarrow> [] | Some t \<Rightarrow> [t]))"

inductive reachable :: "state \<Rightarrow> bool" where
  init: "reachable RangeOverChannel_init"
| step: "reachable s \<Longrightarrow> t \<in> set (steps s) \<Longrightarrow> reachable t"

text \<open>
  A run under a given schedule, the list of the goroutines that move, in order;
  \<open>None\<close> when the goroutine named cannot move.
\<close>

datatype goroutine = Producer | Consumer

fun run :: "goroutine list \<Rightarrow> state \<Rightarrow> state option" where
  "run [] s = Some s"
| "run (g # gs) s =
     (if crashed s then None
      else (case (case g of Producer \<Rightarrow> producer_step s | Consumer \<Rightarrow> consumer_step s) of
              None \<Rightarrow> None
            | Some t \<Rightarrow> run gs t))"

text \<open>
  The schedule that the pauses in the source aim at: the producer runs to its end
  while the consumer sleeps, then the consumer drains the channel.
\<close>

definition sleep_schedule :: "goroutine list" where
  "sleep_schedule = replicate 11 Producer @ replicate 19 Consumer"

text \<open>
  A measure that every step decreases (what the producer has left to do, and what the
  consumer has left to do given the number of values still to come), and the invariant of
  the reachable states: how far the producer is and what it has sent, that a consumer
  past its loop has seen the channel closed and empty, and that what was received and
  what is in the buffer make up what was sent.
\<close>

definition producer_rank :: "producer_pc \<Rightarrow> nat" where
  "producer_rank p =
     (case p of
        P_loop i \<Rightarrow> 2 * nat (6 - sint i) + 1
      | P_print i \<Rightarrow> 2 * nat (6 - sint i)
      | P_done \<Rightarrow> 0
      | P_panic e \<Rightarrow> 0)"

definition consumer_rank :: "consumer_pc \<Rightarrow> nat \<Rightarrow> nat" where
  "consumer_rank c k =
     (case c of
        C_sleep \<Rightarrow> 3 * k + 4
      | C_header \<Rightarrow> 3 * k + 3
      | C_range \<Rightarrow> 3 * k + 2
      | C_body num \<Rightarrow> 3 * k + 4
      | C_pause \<Rightarrow> 3 * k + 3
      | C_after \<Rightarrow> 1
      | C_done \<Rightarrow> 0)"

definition rank :: "state \<Rightarrow> nat" where
  "rank s = producer_rank (producer s) + consumer_rank (consumer s) (5 - length (received s))"

definition producer_inv :: "state \<Rightarrow> bool" where
  "producer_inv s =
     (case producer s of
        P_loop i \<Rightarrow>
          \<not> is_closed (numbers' s) \<and>
          (i, sent s) \<in> {(1, []), (2, [10]), (3, [10, 20]), (4, [10, 20, 30]),
                         (5, [10, 20, 30, 40]), (6, [10, 20, 30, 40, 50])}
      | P_print i \<Rightarrow>
          \<not> is_closed (numbers' s) \<and>
          (i, sent s) \<in> {(1, [10]), (2, [10, 20]), (3, [10, 20, 30]),
                         (4, [10, 20, 30, 40]), (5, [10, 20, 30, 40, 50])}
      | P_done \<Rightarrow> is_closed (numbers' s) \<and> sent s = [10, 20, 30, 40, 50]
      | P_panic e \<Rightarrow> False)"

definition consumer_inv :: "state \<Rightarrow> bool" where
  "consumer_inv s =
     (case consumer s of
        C_after \<Rightarrow> is_closed (numbers' s) \<and> buf (numbers' s) = []
      | C_done \<Rightarrow> is_closed (numbers' s) \<and> buf (numbers' s) = []
      | _ \<Rightarrow> True)"

definition invariant :: "state \<Rightarrow> bool" where
  "invariant s \<longleftrightarrow>
     producer_inv s \<and> consumer_inv s \<and> cap (numbers' s) = 5 \<and>
     received s @ buf (numbers' s) = sent s"

section \<open>Properties\<close>

subsection \<open>Signed 64-bit arithmetic\<close>

lemma sint64_bounds: "- (2 ^ 63) \<le> sint (x :: go_int) \<and> sint x < 2 ^ 63"
  using sint_ge [of x] sint_lt [of x] by simp

lemma sint_of_int64:
  "- (2 ^ 63) \<le> k \<Longrightarrow> k < 2 ^ 63 \<Longrightarrow> sint (word_of_int k :: go_int) = k"
  by (simp add: sint_sbintrunc' signed_take_bit_int_eq_self)

lemma abs_sdiv_eq: "\<bar>(a::int) sdiv b\<bar> = \<bar>a\<bar> div \<bar>b\<bar>"
proof -
  have "0 \<le> \<bar>a\<bar> div \<bar>b\<bar>"
    by (cases "b = 0") (simp_all add: pos_imp_zdiv_nonneg_iff)
  then show ?thesis
    by (cases "a = 0"; cases "b = 0") (simp_all add: signed_divide_int_def abs_mult)
qed

lemma abs_sdiv_le: "\<bar>(a::int) sdiv b\<bar> \<le> \<bar>a\<bar>"
proof (cases "a = 0")
  case True then show ?thesis by simp
next
  case False
  then have "0 < \<bar>a\<bar>" by simp
  then have "\<bar>a\<bar> div \<bar>b\<bar> \<le> \<bar>a\<bar>" by (rule int_div_le_self)
  then show ?thesis by (simp add: abs_sdiv_eq)
qed

lemma abs_smod_eq: "\<bar>(a::int) smod b\<bar> = \<bar>a\<bar> mod \<bar>b\<bar>"
proof -
  have "0 \<le> \<bar>a\<bar> mod \<bar>b\<bar>"
    by (cases "b = 0") simp_all
  then show ?thesis
    by (cases "a = 0") (simp_all add: signed_modulo_int_def abs_mult)
qed

lemma abs_smod_less: "b \<noteq> 0 \<Longrightarrow> \<bar>(a::int) smod b\<bar> < \<bar>b\<bar>"
  by (simp add: abs_smod_eq)

lemma smod_sign: "(a::int) smod b = 0 \<or> sgn (a smod b) = sgn a"
proof (cases "\<bar>a\<bar> mod \<bar>b\<bar> = 0")
  case True then show ?thesis by (simp add: signed_modulo_int_def)
next
  case False
  have "0 \<le> \<bar>a\<bar> mod \<bar>b\<bar>"
    by (cases "b = 0") simp_all
  with False have "0 < \<bar>a\<bar> mod \<bar>b\<bar>" by simp
  then show ?thesis by (simp add: signed_modulo_int_def sgn_mult)
qed

lemma sint_MinInt: "sint MinInt = - (2 ^ 63)"
  by (simp add: MinInt_def)

lemma sint_eq_MinInt: "sint (x :: go_int) = - (2 ^ 63) \<Longrightarrow> x = MinInt"
  using sint_MinInt by (metis signed_word_eqI)

lemma sint_eq_minus1: "sint (x :: go_int) = - 1 \<Longrightarrow> x = - 1"
  by (metis signed_word_eqI sint_n1)

lemma sint_nonzero: "(x :: go_int) \<noteq> 0 \<Longrightarrow> sint x \<noteq> 0"
  by (simp add: signed_eq_0_iff)

lemma quo64_in_range:
  assumes "\<not> (x = MinInt \<and> y = - 1)"
  shows "sint (quo64 x y) = sint x sdiv sint y"
proof -
  let ?a = "sint x" and ?b = "sint y"
  have a: "- (2 ^ 63) \<le> ?a" "?a < 2 ^ 63" using sint64_bounds [of x] by simp_all
  have le: "\<bar>?a sdiv ?b\<bar> \<le> \<bar>?a\<bar>" by (rule abs_sdiv_le)
  have "?a sdiv ?b \<noteq> 2 ^ 63"
  proof
    assume top: "?a sdiv ?b = 2 ^ 63"
    with le a have "?a = - (2 ^ 63)" by simp
    then have x: "x = MinInt" by (rule sint_eq_MinInt)
    from top \<open>?a = - (2 ^ 63)\<close> have "?a sdiv ?b = - ?a" by simp
    moreover have "?a \<noteq> 0" using \<open>?a = - (2 ^ 63)\<close> by simp
    ultimately have "?b = - 1" by simp
    then have "y = - 1" by (rule sint_eq_minus1)
    with x assms show False by simp
  qed
  with le a have "- (2 ^ 63) \<le> ?a sdiv ?b" "?a sdiv ?b < 2 ^ 63" by simp_all
  then show ?thesis by (simp add: quo64_def sint_of_int64)
qed

lemma rem64_in_range:
  assumes "y \<noteq> 0"
  shows "sint (rem64 x y) = sint x smod sint y"
proof -
  let ?a = "sint x" and ?b = "sint y"
  have b: "- (2 ^ 63) \<le> ?b" "?b < 2 ^ 63" using sint64_bounds [of y] by simp_all
  from assms have "?b \<noteq> 0" by (rule sint_nonzero)
  then have "\<bar>?a smod ?b\<bar> < \<bar>?b\<bar>" by (rule abs_smod_less)
  with b have "- (2 ^ 63) \<le> ?a smod ?b" "?a smod ?b < 2 ^ 63" by simp_all
  then show ?thesis by (simp add: rem64_def sint_of_int64)
qed

lemma rem64_eq: "rem64 x y = x - quo64 x y * y"
proof -
  have "rem64 x y = word_of_int (sint x - sint x sdiv sint y * sint y)"
    by (simp add: rem64_def minus_sdiv_mult_eq_smod)
  also have "\<dots> = x - quo64 x y * y"
    by (simp add: quo64_def)
  finally show ?thesis .
qed

lemma quo64_MinInt: "quo64 MinInt (- 1) = MinInt"
  by (simp add: quo64_def MinInt_def)

lemma rem64_MinInt: "rem64 MinInt (- 1) = 0"
  by (simp add: rem64_def MinInt_def signed_modulo_int_def)

subsection \<open>Results and errors\<close>

text \<open>
  C1. For all integers \<open>a\<close>, \<open>b\<close> and every string \<open>operation\<close>,
  \<open>CalculateWithError\<close> returns normally (it never panics), with a non-nil error exactly
  when the operation is "divide" and \<open>b = 0\<close> (text "division by zero") or the operation
  is none of "add", "subtract", "multiply", "divide" (text "unknown operation: " followed
  by the operation). In every error case the returned int is 0; otherwise the error is
  nil and the int is \<open>a + b\<close>, \<open>a - b\<close>, \<open>a * b\<close> or \<open>a / b\<close>.
\<close>

theorem CalculateWithError_spec:
  "\<exists>n e. CalculateWithError a b operation = Inr (n, e) \<and>
     (e \<noteq> None \<longleftrightarrow>
        (operation = ''divide'' \<and> b = 0) \<or>
        operation \<notin> {''add'', ''subtract'', ''multiply'', ''divide''}) \<and>
     (operation = ''divide'' \<and> b = 0 \<longrightarrow> e = Some (Errorf ''division by zero'')) \<and>
     (operation \<notin> {''add'', ''subtract'', ''multiply'', ''divide''} \<longrightarrow>
        e = Some (Errorf (''unknown operation: '' @ operation))) \<and>
     (e \<noteq> None \<longrightarrow> n = 0) \<and>
     (operation = ''add'' \<longrightarrow> n = a + b \<and> e = None) \<and>
     (operation = ''subtract'' \<longrightarrow> n = a - b \<and> e = None) \<and>
     (operation = ''multiply'' \<longrightarrow> n = a * b \<and> e = None) \<and>
     (operation = ''divide'' \<and> b \<noteq> 0 \<longrightarrow> n = quo64 a b \<and> e = None)"
  by (simp add: CalculateWithError_def go_quo_def)

theorem CalculateWithError_spec_witness:
  "CalculateWithError 10 0 ''divide'' = Inr (0, Some (Errorf ''division by zero'')) \<and>
   CalculateWithError 10 5 ''modulo'' = Inr (0, Some (Errorf ''unknown operation: modulo'')) \<and>
   CalculateWithError 10 5 ''divide'' = Inr (2, None) \<and>
   CalculateWithError 10 5 ''add'' = Inr (15, None)"
  using CalculateWithError_spec [of 10 0 "''divide''"]
    CalculateWithError_spec [of 10 5 "''modulo''"]
    CalculateWithError_spec [of 10 5 "''divide''"]
    CalculateWithError_spec [of 10 5 "''add''"]
  by (auto simp add: quo64_def signed_divide_int_def)

text \<open>
  C2 (as amended). \<open>FunctionWithMultipleReturns\<close> never panics. For a zero divisor it
  returns \<open>(0, 0)\<close>. For a non-zero divisor it returns \<open>q\<close> and \<open>r\<close> with
  \<open>r = dividend - q * divisor\<close> in Go's wrapping arithmetic; unless the dividend is the
  most negative int and the divisor is \<open>-1\<close>, \<open>q\<close> is the exact quotient truncated
  towards zero and \<open>r\<close> the matching remainder as mathematical integers (smaller in
  magnitude than the divisor, with the sign of the dividend). In the one excepted case
  the quotient overflows: \<open>q\<close> is the dividend itself and \<open>r = 0\<close>.
\<close>

theorem FunctionWithMultipleReturns_spec:
  "FunctionWithMultipleReturns dividend 0 = Inr (0, 0) \<and>
   (divisor \<noteq> 0 \<longrightarrow>
      (\<exists>q r. FunctionWithMultipleReturns dividend divisor = Inr (q, r) \<and>
         r = dividend - q * divisor \<and>
         (if dividend = MinInt \<and> divisor = - 1 then q = dividend \<and> r = 0
          else sint q = sint dividend sdiv sint divisor \<and>
               sint r = sint dividend - sint q * sint divisor \<and>
               \<bar>sint r\<bar> < \<bar>sint divisor\<bar> \<and>
               (sint r = 0 \<or> sgn (sint r) = sgn (sint dividend)))))"
proof (intro conjI impI)
  show "FunctionWithMultipleReturns dividend 0 = Inr (0, 0)"
    by (simp add: FunctionWithMultipleReturns_def)
next
  assume nz: "divisor \<noteq> 0"
  let ?q = "quo64 dividend divisor" and ?r = "rem64 dividend divisor"
  have run: "FunctionWithMultipleReturns dividend divisor = Inr (?q, ?r)"
    using nz by (simp add: FunctionWithMultipleReturns_def go_quo_def go_rem_def)
  have wrap: "?r = dividend - ?q * divisor"
    by (rule rem64_eq)
  have cases: "if dividend = MinInt \<and> divisor = - 1 then ?q = dividend \<and> ?r = 0
          else sint ?q = sint dividend sdiv sint divisor \<and>
               sint ?r = sint dividend - sint ?q * sint divisor \<and>
               \<bar>sint ?r\<bar> < \<bar>sint divisor\<bar> \<and>
               (sint ?r = 0 \<or> sgn (sint ?r) = sgn (sint dividend))"
  proof (cases "dividend = MinInt \<and> divisor = - 1")
    case True
    then show ?thesis by (simp add: quo64_MinInt rem64_MinInt)
  next
    case False
    have q: "sint ?q = sint dividend sdiv sint divisor"
      using False by (rule quo64_in_range)
    have r: "sint ?r = sint dividend smod sint divisor"
      using nz by (rule rem64_in_range)
    have "sint ?r = sint dividend - sint ?q * sint divisor"
      by (simp add: q r minus_sdiv_mult_eq_smod)
    moreover have "\<bar>sint ?r\<bar> < \<bar>sint divisor\<bar>"
      using nz by (simp add: r abs_smod_less sint_nonzero)
    moreover have "sint ?r = 0 \<or> sgn (sint ?r) = sgn (sint dividend)"
      unfolding r by (rule smod_sign)
    ultimately show ?thesis using False q by (simp only: if_not_P) simp
  qed
  from run wrap cases
  show "\<exists>q r. FunctionWithMultipleReturns dividend divisor = Inr (q, r) \<and>
         r = dividend - q * divisor \<and>
         (if dividend = MinInt \<and> divisor = - 1 then q = dividend \<and> r = 0
          else sint q = sint dividend sdiv sint divisor \<and>
               sint r = sint dividend - sint q * sint divisor \<and>
               \<bar>sint r\<bar> < \<bar>sint divisor\<bar> \<and>
               (sint r = 0 \<or> sgn (sint r) = sgn (sint dividend)))"
    by blast
qed

theorem FunctionWithMultipleReturns_spec_witness:
  "FunctionWithMultipleReturns (- 17) 5 = Inr (- 3, - 2) \<and>
   FunctionWithMultipleReturns 10 0 = Inr (0, 0)"
proof -
  have nz: "(5 :: go_int) \<noteq> 0" by simp
  have ne: "\<not> ((- 17 :: go_int) = MinInt \<and> (5 :: go_int) = - 1)" by simp
  from FunctionWithMultipleReturns_spec [of "- 17" 5] nz ne
  obtain q r where
    run: "FunctionWithMultipleReturns (- 17) 5 = Inr (q, r)" and
    q: "sint q = sint (- 17 :: go_int) sdiv sint (5 :: go_int)" and
    r: "r = - 17 - q * 5"
    by auto
  from q have "sint q = - 3" by (simp add: signed_divide_int_def)
  then have "word_of_int (sint q) = (word_of_int (- 3) :: go_int)" by simp
  then have "q = - 3" by simp
  with r run FunctionWithMultipleReturns_spec [of 10 5] show ?thesis by simp
qed

text \<open>
  C2 as first stated fails at the overflowing pair: the truncated quotient of
  \<open>-2^63\<close> by \<open>-1\<close> is \<open>2^63\<close>, and the function returns \<open>-2^63\<close>.
\<close>

theorem FunctionWithMultipleReturns_overflow:
  "FunctionWithMultipleReturns (- 9223372036854775808) (- 1) = Inr (- 9223372036854775808, 0) \<and>
   sint (- 9223372036854775808 :: go_int) = - 9223372036854775808 \<and>
   sint (- 9223372036854775808 :: go_int) sdiv sint (- 1 :: go_int) = 9223372036854775808"
  by (simp add: FunctionWithMultipleReturns_def go_quo_def go_rem_def quo64_def rem64_def
      signed_modulo_int_def)

subsection \<open>Recursion\<close>

lemma sint_pred:
  assumes "\<not> n \<le>s (1 :: go_int)"
  shows "sint (n - 1) = sint n - 1"
proof -
  from assms have gt: "1 < sint n" by (simp add: word_sle_eq)
  have "sint n < 2 ^ 63" using sint64_bounds [of n] by simp
  with gt have "sint (word_of_int (sint n - 1) :: go_int) = sint n - 1"
    by (intro sint_of_int64) simp_all
  moreover have eq: "(word_of_int (sint n - 1) :: go_int) = n - 1" by simp
  ultimately show ?thesis by (simp only: eq)
qed

lemma RecursiveFactorial_eq_fact:
  "0 \<le>s n \<Longrightarrow> RecursiveFactorial n = of_nat (fact (nat (sint n)))"
proof (induction n rule: RecursiveFactorial.induct)
  case (1 n)
  show ?case
  proof (cases "n \<le>s 1")
    case True
    with "1.prems" have "sint n = 0 \<or> sint n = 1" by (auto simp add: word_sle_eq)
    then have "fact (nat (sint n)) = (1 :: nat)" by auto
    with True show ?thesis by (simp add: RecursiveFactorial.simps)
  next
    case False
    then have gt: "1 < sint n" by (simp add: word_sle_eq)
    have pred: "sint (n - 1) = sint n - 1" using False by (rule sint_pred)
    with gt have "0 \<le>s n - 1" by (simp add: word_sle_eq)
    with "1.IH" False have IH: "RecursiveFactorial (n - 1) = of_nat (fact (nat (sint n - 1)))"
      by (simp add: pred)
    from gt have "nat (sint n) = Suc (nat (sint n - 1))" by simp
    then have "fact (nat (sint n)) = nat (sint n) * fact (nat (sint n - 1))"
      by simp
    then have "(of_nat (fact (nat (sint n))) :: go_int) =
        of_nat (nat (sint n)) * of_nat (fact (nat (sint n - 1)))"
      by (simp only: of_nat_mult)
    moreover have "(of_nat (nat (sint n)) :: go_int) = n"
      using gt by simp
    ultimately show ?thesis using False IH by (simp add: RecursiveFactorial.simps)
  qed
qed


lemma fact_small: "k \<le> 20 \<Longrightarrow> (fact k :: nat) < 2 ^ 63"
proof -
  assume "k \<le> 20"
  then have "(fact k :: nat) \<le> fact 20" by (rule fact_mono)
  also have "(fact 20 :: nat) < 2 ^ 63" by (simp add: fact_numeral)
  finally show ?thesis .
qed

lemma sint_of_nat64: "m < 2 ^ 63 \<Longrightarrow> sint (of_nat m :: go_int) = int m"
proof -
  assume "m < 2 ^ 63"
  then have "int m < 2 ^ 63" by (metis of_nat_less_iff of_nat_numeral of_nat_power)
  then have "sint (word_of_int (int m) :: go_int) = int m"
    by (intro sint_of_int64) simp_all
  then show ?thesis by simp
qed

lemma RecursiveFactorial_fuel_enough:
  "nat (sint n - 1) < fuel \<Longrightarrow> RecursiveFactorial_fuel fuel n = Some (RecursiveFactorial n)"
proof (induction fuel arbitrary: n)
  case 0
  then show ?case by simp
next
  case (Suc fuel)
  show ?case
  proof (cases "n \<le>s 1")
    case True
    then show ?thesis by (simp add: RecursiveFactorial.simps)
  next
    case False
    then have gt: "1 < sint n" by (simp add: word_sle_eq)
    have pred: "sint (n - 1) = sint n - 1" using False by (rule sint_pred)
    from Suc.prems gt have "nat (sint (n - 1) - 1) < fuel" by (simp add: pred)
    then have "RecursiveFactorial_fuel fuel (n - 1) = Some (RecursiveFactorial (n - 1))"
      by (rule Suc.IH)
    with False show ?thesis by (simp add: RecursiveFactorial.simps)
  qed
qed

text \<open>
  C4 (as amended). For every \<open>n \<ge> 0\<close>, \<open>RecursiveFactorial n\<close> is \<open>n!\<close> reduced to
  64 bits, computed by the recursion \<open>n * RecursiveFactorial (n - 1)\<close> with base case
  \<open>n \<le> 1\<close>; for \<open>0 \<le> n \<le> 20\<close> no product overflows and the result is \<open>n!\<close>
  itself (with \<open>0! = 1\<close>).
\<close>

theorem RecursiveFactorial_spec:
  "0 \<le>s n \<Longrightarrow>
     RecursiveFactorial n = of_nat (fact (nat (sint n))) \<and>
     (n \<le>s 20 \<longrightarrow> sint (RecursiveFactorial n) = fact (nat (sint n))) \<and>
     RecursiveFactorial n = (if n \<le>s 1 then 1 else n * RecursiveFactorial (n - 1))"
proof (intro conjI impI)
  assume nn: "0 \<le>s n"
  then show eq: "RecursiveFactorial n = of_nat (fact (nat (sint n)))"
    by (rule RecursiveFactorial_eq_fact)
  show "RecursiveFactorial n = (if n \<le>s 1 then 1 else n * RecursiveFactorial (n - 1))"
    by (rule RecursiveFactorial.simps)
  assume "n \<le>s 20"
  then have "nat (sint n) \<le> 20" by (simp add: word_sle_eq)
  then have "(fact (nat (sint n)) :: nat) < 2 ^ 63" by (rule fact_small)
  then have "sint (of_nat (fact (nat (sint n))) :: go_int) = int (fact (nat (sint n)))"
    by (rule sint_of_nat64)
  with eq show "sint (RecursiveFactorial n) = fact (nat (sint n))" by simp
qed

theorem RecursiveFactorial_spec_witness:
  "sint (RecursiveFactorial 7) = 5040 \<and> RecursiveFactorial 0 = 1"
proof -
  have "(0 :: go_int) \<le>s 7" "(7 :: go_int) \<le>s 20" "(0 :: go_int) \<le>s 0"
    by (simp_all add: word_sle_eq)
  with RecursiveFactorial_spec [of 7] RecursiveFactorial_spec [of 0]
  show ?thesis by (simp add: fact_numeral)
qed

text \<open>
  C4 as first stated fails at \<open>n = 21\<close>: \<open>21!\<close> exceeds the largest int, and the
  function returns a negative number.
\<close>

theorem RecursiveFactorial_overflow:
  "sint (RecursiveFactorial 21) = - 4249290049419214848 \<and>
   (fact 21 :: int) = 51090942171709440000"
proof -
  have "(0 :: go_int) \<le>s 21" by (simp add: word_sle_eq)
  then have "RecursiveFactorial 21 = of_nat (fact (nat (sint (21 :: go_int))))"
    by (rule RecursiveFactorial_eq_fact)
  then show ?thesis by (simp add: fact_numeral)
qed

text \<open>
  C9. \<open>RecursiveFactorial\<close> returns on every input: a call stack of depth
  \<open>max 1 n\<close> is enough. For \<open>n \<le> 1\<close>, negative \<open>n\<close> included, it returns 1 within
  the first activation, without a recursive call; for \<open>n > 1\<close> the recursive call is on
  \<open>n - 1\<close>, which is smaller by exactly one and still at least 1.
\<close>

theorem RecursiveFactorial_terminates:
  "RecursiveFactorial_fuel (Suc (nat (sint n - 1))) n = Some (RecursiveFactorial n) \<and>
   (n \<le>s 1 \<longrightarrow> RecursiveFactorial_fuel 1 n = Some 1 \<and> RecursiveFactorial n = 1) \<and>
   (\<not> n \<le>s 1 \<longrightarrow> sint (n - 1) = sint n - 1 \<and> 1 \<le> sint (n - 1) \<and>
      RecursiveFactorial n = n * RecursiveFactorial (n - 1))"
proof (intro conjI impI)
  show "RecursiveFactorial_fuel (Suc (nat (sint n - 1))) n = Some (RecursiveFactorial n)"
    by (rule RecursiveFactorial_fuel_enough) simp
next
  assume "n \<le>s 1"
  then show "RecursiveFactorial_fuel 1 n = Some 1" "RecursiveFactorial n = 1"
    by (simp_all add: RecursiveFactorial.simps)
next
  assume rec: "\<not> n \<le>s 1"
  then show pred: "sint (n - 1) = sint n - 1" by (rule sint_pred)
  from rec show "1 \<le> sint (n - 1)" by (simp add: pred word_sle_eq)
  from rec show "RecursiveFactorial n = n * RecursiveFactorial (n - 1)"
    by (simp add: RecursiveFactorial.simps)
qed

theorem RecursiveFactorial_terminates_witness:
  "RecursiveFactorial_fuel 5 5 = Some 120 \<and>
   RecursiveFactorial_fuel 1 (- 3) = Some 1 \<and>
   RecursiveFactorial 5 = 5 * RecursiveFactorial 4"
proof -
  have "(- 3 :: go_int) \<le>s 1" "\<not> (5 :: go_int) \<le>s 1"
    by (simp_all add: word_sle_eq)
  with RecursiveFactorial_terminates [of 5] RecursiveFactorial_terminates [of "- 3"]
  show ?thesis by (simp add: RecursiveFactorial.simps word_sle_eq)
qed

subsection \<open>Panics\<close>

text \<open>
  C8. \<open>AllOperations x y\<close> panics with "integer divide by zero" when \<open>y = 0\<close>: neither
  \<open>x / y\<close> nor \<open>x % y\<close> is guarded. For \<open>y \<noteq> 0\<close> both are defined, and the function
  returns exactly \<open>(x + y, x - y, x * y, x / y, x % y)\<close>.
\<close>

theorem AllOperations_spec:
  "AllOperations x 0 = Inl IntegerDivideByZero \<and>
   (y \<noteq> 0 \<longrightarrow>
      go_quo x y = Inr (quo64 x y) \<and> go_rem x y = Inr (rem64 x y) \<and>
      AllOperations x y = Inr (x + y, x - y, x * y, quo64 x y, rem64 x y))"
  by (simp add: AllOperations_def go_quo_def go_rem_def)

theorem AllOperations_spec_witness:
  "AllOperations 15 4 = Inr (19, 11, 60, 3, 3) \<and>
   AllOperations 15 0 = Inl IntegerDivideByZero"
proof -
  have "(4 :: go_int) \<noteq> 0" by simp
  with AllOperations_spec [of 15 4] show ?thesis
    by (simp add: quo64_def rem64_def signed_divide_int_def signed_modulo_int_def)
qed

subsection \<open>Receivers\<close>

text \<open>
  C10. Let the Calculator \<open>c\<close> be the variable at address \<open>calc\<close>. \<open>c.Add(a, b)\<close>
  returns \<open>a + b\<close> and leaves \<open>c.LastResult\<close>, and every variable that existed before
  the call, unchanged: only the method's copy, a new variable, holds \<open>a + b\<close>.
  \<open>c.AddAndStore(a, b)\<close> returns \<open>a + b\<close> and sets \<open>c.LastResult\<close> to \<open>a + b\<close>, changing
  nothing else, and \<open>c.GetLastResult()\<close> then returns that value.
\<close>

theorem Calculator_methods:
  "calc < length s \<Longrightarrow>
     (\<exists>s'. Add (s ! calc) a b s = (a + b, s') \<and>
        LastResult (s' ! calc) = LastResult (s ! calc) \<and>
        take (length s) s' = s \<and>
        LastResult (s' ! length s) = a + b) \<and>
     (\<exists>s'. AddAndStore calc a b s = Inr (a + b, s') \<and>
        LastResult (s' ! calc) = a + b \<and>
        s' = s[calc := (s ! calc)\<lparr>LastResult := a + b\<rparr>] \<and>
        fst (GetLastResult (s' ! calc) s') = a + b)"
  by (simp add: Add_def AddAndStore_def GetLastResult_def new_def modify_def Let_def
      nth_append)

theorem Calculator_methods_witness:
  "Add \<lparr>LastResult = 0\<rparr> 5 3 [\<lparr>LastResult = 0\<rparr>] =
     (8, [\<lparr>LastResult = 0\<rparr>, \<lparr>LastResult = 8\<rparr>]) \<and>
   AddAndStore 0 10 7 [\<lparr>LastResult = 0\<rparr>] = Inr (17, [\<lparr>LastResult = 17\<rparr>]) \<and>
   fst (GetLastResult \<lparr>LastResult = 17\<rparr> [\<lparr>LastResult = 17\<rparr>]) = 17"
proof -
  have "(0 :: nat) < length [\<lparr>LastResult = (0 :: go_int)\<rparr>]" by simp
  from Calculator_methods [OF this, of 5 3] Calculator_methods [OF this, of 10 7]
  show ?thesis
    by (auto simp add: Add_def new_def)
qed

subsection \<open>Package variables\<close>

lemma Print_frame [simp]:
  "GlobalCounter (Print text w) = GlobalCounter w"
  "globalMessage (Print text w) = globalMessage w"
  by (simp_all add: Print_def)

lemma DemonstrateScope_loop_frame:
  "GlobalCounter (DemonstrateScope_loop i w) = GlobalCounter w \<and>
   globalMessage (DemonstrateScope_loop i w) = globalMessage w"
proof (induction i w rule: DemonstrateScope_loop.induct)
  case (1 i w)
  show ?case
  proof (cases "i <s 3")
    case True
    with "1.IH" [OF True refl refl] show ?thesis
      by (subst (1 2) DemonstrateScope_loop.simps) (simp add: Let_def)
  next
    case False
    then show ?thesis by (simp add: DemonstrateScope_loop.simps)
  qed
qed

lemma DemonstrateScope_frame:
  "GlobalCounter (DemonstrateScope w) = GlobalCounter w + 1"
  "globalMessage (DemonstrateScope w) = globalMessage w"
  by (simp_all add: DemonstrateScope_def Let_def DemonstrateScope_loop_frame)

lemma DemonstrateScope_calls:
  "GlobalCounter ((DemonstrateScope ^^ n) w) = GlobalCounter w + of_nat n \<and>
   globalMessage ((DemonstrateScope ^^ n) w) = globalMessage w"
  by (induction n) (simp_all add: DemonstrateScope_frame)

text \<open>
  C6. Each call of \<open>DemonstrateScope\<close> increments \<open>GlobalCounter\<close> by one (Go's \<open>++\<close>
  on an int) and leaves \<open>globalMessage\<close> as it was; so after any number \<open>n\<close> of calls
  from the initial values the counter is \<open>n\<close> (as an int) and \<open>globalMessage\<close> still
  holds "This is a package-level variable".
\<close>

theorem DemonstrateScope_spec:
  "GlobalCounter (DemonstrateScope w) = GlobalCounter w + 1 \<and>
   globalMessage (DemonstrateScope w) = globalMessage w \<and>
   GlobalCounter ((DemonstrateScope ^^ n) package_init) = of_nat n \<and>
   globalMessage ((DemonstrateScope ^^ n) package_init) = ''This is a package-level variable''"
  by (simp add: DemonstrateScope_frame DemonstrateScope_calls package_init_def)

theorem DemonstrateScope_spec_witness:
  "GlobalCounter (DemonstrateScope package_init) = 1 \<and>
   globalMessage (DemonstrateScope package_init) = ''This is a package-level variable''"
  using DemonstrateScope_spec [of package_init 0] by (simp add: package_init_def)

text \<open>
  The output of the first call: the first line prints the package variable, the lines
  after the short declaration print the local one.
\<close>

lemma DemonstrateScope_output:
  "stdout (DemonstrateScope package_init) =
     ''Global message: This is a package-level variable\<newline>'' @
     ''Global counter before: 0\<newline>'' @
     ''Global counter after increment: 1\<newline>'' @
     ''Local message (shadowing): I'm shadowing the global variable\<newline>'' @
     ''Block variable: I only exist in this block\<newline>'' @
     ''Can access local message: I'm shadowing the global variable\<newline>'' @
     ''Loop iteration 0\<newline>'' @
     ''Loop iteration 1\<newline>'' @
     ''Loop iteration 2\<newline>''"
  by (simp add: DemonstrateScope_def package_init_def Print_def Let_def format_d_def
      DemonstrateScope_loop.simps decimal.simps word_sless_alt)

subsection \<open>Counters\<close>

lemma call_valid:
  "c < length s \<Longrightarrow> call c s = Inr (s ! c + 1, s[c := s ! c + 1])"
  by (simp add: call_def modify_def load_def)

lemma upt_shift: "[1..<Suc (Suc m)] = 1 # map Suc [1..<Suc m]"
proof -
  have "[1..<Suc (Suc m)] = 1 # [Suc 1..<Suc (Suc m)]"
    by (simp add: upt_conv_Cons)
  moreover have "map Suc [1..<Suc m] = [Suc 1..<Suc (Suc m)]"
    by (simp only: map_Suc_upt)
  ultimately show ?thesis by simp
qed

lemma exec_results:
  "well_formed (length s) as \<Longrightarrow>
   \<exists>evs s'. exec as s = Inr (evs, s') \<and>
     length s' = length s + count_list as Make \<and>
     made evs = [length s..<length s + count_list as Make] \<and>
     (\<forall>c. returned c evs =
        map (\<lambda>k. (if c < length s then s ! c else 0) + of_nat k)
          [1..<Suc (count_list as (Invoke c))])"
proof (induction as arbitrary: s)
  case Nil
  then show ?case by simp
next
  case (Cons a as)
  show ?case
  proof (cases a)
    case Make
    let ?s1 = "s @ [0 :: go_int]"
    from Cons.prems Make have "well_formed (length ?s1) as" by simp
    from Cons.IH [OF this] obtain evs s' where
      run: "exec as ?s1 = Inr (evs, s')" and
      len: "length s' = length ?s1 + count_list as Make" and
      mk: "made evs = [length ?s1..<length ?s1 + count_list as Make]" and
      each: "\<And>c. returned c evs =
        map (\<lambda>k. (if c < length ?s1 then ?s1 ! c else 0) + of_nat k)
          [1..<Suc (count_list as (Invoke c))]"
      by blast
    have init: "(if c < length ?s1 then ?s1 ! c else 0) = (if c < length s then s ! c else 0)"
      for c
      by (simp add: nth_append less_Suc_eq)
    have run': "exec (a # as) s = Inr (Made (length s) # evs, s')"
      using run by (simp add: Make Closure_def new_def)
    have len': "length s' = length s + count_list (a # as) Make"
      using len by (simp add: Make)
    have mk': "made (Made (length s) # evs) =
        [length s..<length s + count_list (a # as) Make]"
      using mk by (simp add: Make upt_conv_Cons)
    have each': "\<forall>c. returned c (Made (length s) # evs) =
        map (\<lambda>k. (if c < length s then s ! c else 0) + of_nat k)
          [1..<Suc (count_list (a # as) (Invoke c))]"
      using each by (simp only: init) (simp add: Make)
    from run' len' mk' each' show ?thesis by blast
  next
    case (Invoke f)
    with Cons.prems have f: "f < length s" and wf: "well_formed (length s) as" by simp_all
    let ?s1 = "s[f := s ! f + 1]"
    from wf have "well_formed (length ?s1) as" by simp
    from Cons.IH [OF this] obtain evs s' where
      run: "exec as ?s1 = Inr (evs, s')" and
      len: "length s' = length ?s1 + count_list as Make" and
      mk: "made evs = [length ?s1..<length ?s1 + count_list as Make]" and
      each: "\<And>c. returned c evs =
        map (\<lambda>k. (if c < length ?s1 then ?s1 ! c else 0) + of_nat k)
          [1..<Suc (count_list as (Invoke c))]"
      by blast
    have run': "exec (a # as) s = Inr (Returned f (s ! f + 1) # evs, s')"
      using run f by (simp add: Invoke call_valid)
    have len': "length s' = length s + count_list (a # as) Make"
      using len by (simp add: Invoke)
    have mk': "made (Returned f (s ! f + 1) # evs) =
        [length s..<length s + count_list (a # as) Make]"
      using mk by (simp add: Invoke)
    have each': "returned c (Returned f (s ! f + 1) # evs) =
        map (\<lambda>k. (if c < length s then s ! c else 0) + of_nat k)
          [1..<Suc (count_list (a # as) (Invoke c))]" for c
    proof (cases "f = c")
      case True
      have "returned c (Returned f (s ! f + 1) # evs) = (s ! c + 1) # returned c evs"
        using True by simp
      also have "returned c evs =
          map (\<lambda>k. s ! c + 1 + of_nat k) [1..<Suc (count_list as (Invoke c))]"
        using each [of c] True f by simp
      also have "(s ! c + 1) # map (\<lambda>k. s ! c + 1 + of_nat k) [1..<Suc (count_list as (Invoke c))] =
          map (\<lambda>k. s ! c + of_nat k) [1..<Suc (Suc (count_list as (Invoke c)))]"
        by (simp only: upt_shift) (simp add: comp_def add.assoc)
      finally show ?thesis using True f by (simp add: Invoke)
    next
      case False
      then have "returned c (Returned f (s ! f + 1) # evs) = returned c evs" by simp
      with each [of c] False show ?thesis by (simp add: Invoke)
    qed
    from run' len' mk' each' show ?thesis by blast
  qed
qed


lemma exec_replicate:
  "c < length s \<Longrightarrow>
   exec (replicate n (Invoke c)) s =
     Inr (map (\<lambda>k. Returned c (s ! c + of_nat k)) [1..<Suc n], s[c := s ! c + of_nat n])"
proof (induction n arbitrary: s)
  case 0
  then show ?case by simp
next
  case (Suc n)
  let ?s1 = "s[c := s ! c + 1]"
  from Suc.prems have c1: "c < length ?s1" by simp
  have "exec (replicate (Suc n) (Invoke c)) s =
      Inr (Returned c (s ! c + 1) # map (\<lambda>k. Returned c (?s1 ! c + of_nat k)) [1..<Suc n],
           ?s1[c := ?s1 ! c + of_nat n])"
    using Suc.prems Suc.IH [OF c1] by (simp add: call_valid)
  moreover have "Returned c (s ! c + 1) # map (\<lambda>k. Returned c (?s1 ! c + of_nat k)) [1..<Suc n] =
      map (\<lambda>k. Returned c (s ! c + of_nat k)) [1..<Suc (Suc n)]"
    using Suc.prems by (simp only: upt_shift) (simp add: comp_def add.assoc)
  moreover have "?s1[c := ?s1 ! c + of_nat n] = s[c := s ! c + of_nat (Suc n)]"
    using Suc.prems by (simp add: add.assoc)
  ultimately show ?case by simp
qed

lemma map_sint_of_nat:
  "m < 2 ^ 63 \<Longrightarrow> map sint (map of_nat [1..<Suc m] :: go_int list) = map int [1..<Suc m]"
proof -
  assume m: "m < 2 ^ 63"
  have "sint (of_nat k :: go_int) = int k" if "k \<in> set [1..<Suc m]" for k
  proof -
    from that have "k \<le> m" by auto
    then have "k < 2 ^ 63" using m by (rule le_less_trans)
    then show ?thesis by (rule sint_of_nat64)
  qed
  then show ?thesis by simp
qed

lemma sorted_ints: "sorted_wrt (<) (map int [1..<Suc m])"
  by (simp add: sorted_wrt_map del: upt_Suc)

text \<open>
  C3 (as amended). \<open>Closure\<close> makes a new variable with count zero, distinct from every
  variable there is, and changes no other; invoking a counter adds one to its own count,
  returns it, and changes no other. So under every well-formed sequence of calls to
  \<open>Closure\<close> and invocations of counters, in any order (counters made before or after
  others were invoked, any number of them): the counters made are all new and distinct;
  the values that a counter returns depend only on its own count at the start and on how
  often it has been invoked; and a counter made in the sequence returns \<open>1, 2, 3, \<dots>\<close>
  (as 64-bit ints), its \<open>n\<close>-th invocation returning \<open>n\<close>, whatever is done with the
  others. As long as a counter has been invoked fewer than \<open>2^63\<close> times, the values it
  returned are the numbers \<open>1, \<dots>, n\<close> themselves and are strictly increasing.
\<close>

theorem Closure_counters:
  "(case Closure s of
      (counter, s') \<Rightarrow>
        counter = length s \<and> s' ! counter = 0 \<and> length s' = Suc (length s) \<and>
        take (length s) s' = s) \<and>
   (c < length s \<longrightarrow> call c s = Inr (s ! c + 1, s[c := s ! c + 1])) \<and>
   (well_formed (length s) as \<longrightarrow>
      (\<exists>evs s'. exec as s = Inr (evs, s') \<and>
         made evs = [length s..<length s + count_list as Make] \<and>
         (\<forall>c. returned c evs =
            map (\<lambda>k. (if c < length s then s ! c else 0) + of_nat k)
              [1..<Suc (count_list as (Invoke c))]) \<and>
         (\<forall>c. length s \<le> c \<longrightarrow>
            returned c evs = map of_nat [1..<Suc (count_list as (Invoke c))] \<and>
            (count_list as (Invoke c) < 2 ^ 63 \<longrightarrow>
               map sint (returned c evs) = map int [1..<Suc (count_list as (Invoke c))] \<and>
               sorted_wrt (<) (map sint (returned c evs))))))"
proof (intro conjI impI)
  show "case Closure s of
      (counter, s') \<Rightarrow>
        counter = length s \<and> s' ! counter = 0 \<and> length s' = Suc (length s) \<and>
        take (length s) s' = s"
    by (simp add: Closure_def new_def)
next
  assume "c < length s"
  then show "call c s = Inr (s ! c + 1, s[c := s ! c + 1])" by (rule call_valid)
next
  assume "well_formed (length s) as"
  from exec_results [OF this] obtain evs s' where
    run: "exec as s = Inr (evs, s')" and
    mk: "made evs = [length s..<length s + count_list as Make]" and
    each: "\<forall>c. returned c evs =
        map (\<lambda>k. (if c < length s then s ! c else 0) + of_nat k)
          [1..<Suc (count_list as (Invoke c))]"
    by blast
  have fresh: "\<forall>c. length s \<le> c \<longrightarrow>
      returned c evs = map of_nat [1..<Suc (count_list as (Invoke c))] \<and>
      (count_list as (Invoke c) < 2 ^ 63 \<longrightarrow>
         map sint (returned c evs) = map int [1..<Suc (count_list as (Invoke c))] \<and>
         sorted_wrt (<) (map sint (returned c evs)))"
  proof (intro allI impI conjI)
    fix c assume "length s \<le> c"
    with each show r: "returned c evs = map of_nat [1..<Suc (count_list as (Invoke c))]"
      by simp
    assume "count_list as (Invoke c) < 2 ^ 63"
    then show m: "map sint (returned c evs) = map int [1..<Suc (count_list as (Invoke c))]"
      unfolding r by (rule map_sint_of_nat)
    show "sorted_wrt (<) (map sint (returned c evs))"
      unfolding m by (rule sorted_ints)
  qed
  from run mk each fresh
  show "\<exists>evs s'. exec as s = Inr (evs, s') \<and>
         made evs = [length s..<length s + count_list as Make] \<and>
         (\<forall>c. returned c evs =
            map (\<lambda>k. (if c < length s then s ! c else 0) + of_nat k)
              [1..<Suc (count_list as (Invoke c))]) \<and>
         (\<forall>c. length s \<le> c \<longrightarrow>
            returned c evs = map of_nat [1..<Suc (count_list as (Invoke c))] \<and>
            (count_list as (Invoke c) < 2 ^ 63 \<longrightarrow>
               map sint (returned c evs) = map int [1..<Suc (count_list as (Invoke c))] \<and>
               sorted_wrt (<) (map sint (returned c evs))))"
    by (intro exI conjI)
qed

theorem Closure_counters_witness:
  "exec [Make, Invoke 0, Invoke 0, Invoke 0, Make, Invoke 1, Invoke 0] [] =
     Inr ([Made 0, Returned 0 1, Returned 0 2, Returned 0 3, Made 1, Returned 1 1,
           Returned 0 4], [4, 1]) \<and>
   exec [Make, Make, Invoke 0, Invoke 0, Invoke 0, Invoke 1, Invoke 1, Invoke 0] [] =
     Inr ([Made 0, Made 1, Returned 0 1, Returned 0 2, Returned 0 3, Returned 1 1,
           Returned 1 2, Returned 0 4], [4, 2]) \<and>
   call 2 [7, 9, 4] = Inr (5, [7, 9, 5])"
proof -
  let ?demo = "[Make, Invoke 0, Invoke 0, Invoke 0, Make, Invoke 1, Invoke 0]"
  let ?test = "[Make, Make, Invoke 0, Invoke 0, Invoke 0, Invoke 1, Invoke 1, Invoke 0]"
  have "well_formed (length ([] :: go_int store)) ?demo"
    and "well_formed (length ([] :: go_int store)) ?test"
    and "(2 :: nat) < length [7, 9, 4 :: go_int]"
    by simp_all
  with Closure_counters [of "[]" 0 ?demo] Closure_counters [of "[]" 0 ?test]
    Closure_counters [of "[7, 9, 4]" 2 "[]"]
  show ?thesis
    by (simp add: Closure_def new_def call_def modify_def load_def)
qed

text \<open>
  C3 as first stated fails at the \<open>2^63\<close>-th invocation of a counter: the count wraps
  around, the invocation returns \<open>-2^63\<close> and not \<open>2^63\<close>, and that is less than the
  \<open>2^63 - 1\<close> returned just before.
\<close>

theorem Closure_wraps:
  "exec (Make # replicate (2 ^ 63) (Invoke 0)) [] =
     Inr (Made 0 # map (Returned 0 \<circ> of_nat) [1..<Suc (2 ^ 63)], [of_nat (2 ^ 63)]) \<and>
   sint (of_nat (2 ^ 63 - 1) :: go_int) = 2 ^ 63 - 1 \<and>
   sint (of_nat (2 ^ 63) :: go_int) = - (2 ^ 63)"
proof -
  have "(0 :: nat) < length [0 :: go_int]" by simp
  from exec_replicate [OF this, of "2 ^ 63"]
  have "exec (replicate (2 ^ 63) (Invoke 0)) [0] =
     Inr (map (Returned 0 \<circ> of_nat) [1..<Suc (2 ^ 63)], [of_nat (2 ^ 63)])"
    by (simp add: comp_def del: upt_Suc)
  then show ?thesis by (simp add: Closure_def new_def del: upt_Suc)
qed

subsection \<open>Arrays are values\<close>

lemma ArrayBasics_store:
  "fst (ArrayBasics s) =
     \<lparr>numbers = length s, primes = length s + 1, sparse = length s + 2,
      copyOfPrimes = length s + 3\<rparr> \<and>
   fst (snd (ArrayBasics s)) =
     s @ [[0, 0, 42, 0, 0], [2, 3, 5, 7, 11], [0, 10, 0, 0, 0, 50, 0, 0, 0, 90],
          [100, 3, 5, 7, 11]]"
  by (simp add: ArrayBasics_def new_def Let_def nth_append list_update_append)

lemma new_copy:
  "p < length s \<Longrightarrow> new (s ! p) s = (c, s1) \<Longrightarrow>
     c \<noteq> p \<and> s1 ! c = s ! p \<and> s1[c := (s1 ! c)[i := v]] ! p = s ! p"
  by (auto simp add: new_def nth_append)

text \<open>
  C7. In \<open>ArrayBasics\<close>, after \<open>copyOfPrimes := primes\<close> and \<open>copyOfPrimes[0] = 100\<close>
  the array \<open>primes\<close> still holds 2, 3, 5, 7, 11 while the copy starts with 100, and
  no variable that existed before is changed. In general a variable initialised from an
  array variable \<open>p\<close> is a different variable with the same elements, and a write to
  any of its elements leaves \<open>p\<close> unchanged. For an array of 1000000 ints,
  \<open>modifyArrayCopy\<close> leaves the caller's array, and every other variable, unchanged
  (only its own copy gets 999), whereas \<open>modifyArrayPointer\<close> sets element 0 of the
  caller's array to 999 and changes no other element.
\<close>

theorem array_copies:
  "(case ArrayBasics s of (vars, s', out) \<Rightarrow>
      s' ! primes vars = [2, 3, 5, 7, 11] \<and>
      s' ! copyOfPrimes vars = [100, 3, 5, 7, 11] \<and>
      take (length s) s' = s) \<and>
   (p < length s \<longrightarrow>
      (case new (s ! p) s of (c, s1) \<Rightarrow>
         c \<noteq> p \<and> s1 ! c = s ! p \<and> s1[c := (s1 ! c)[i := v]] ! p = s ! p)) \<and>
   (bigArray < length s \<and> length (s ! bigArray) = 1000000 \<longrightarrow>
      modifyArrayCopy (s ! bigArray) s = s @ [(s ! bigArray)[0 := 999]] \<and>
      modifyArrayCopy (s ! bigArray) s ! bigArray = s ! bigArray \<and>
      take (length s) (modifyArrayCopy (s ! bigArray) s) = s \<and>
      (\<exists>s'. modifyArrayPointer bigArray s = Inr s' \<and>
         s' = s[bigArray := (s ! bigArray)[0 := 999]] \<and>
         s' ! bigArray ! 0 = 999 \<and>
         (\<forall>i. i \<noteq> 0 \<longrightarrow> s' ! bigArray ! i = s ! bigArray ! i)))"
proof (intro conjI impI)
  show "case ArrayBasics s of (vars, s', out) \<Rightarrow>
      s' ! primes vars = [2, 3, 5, 7, 11] \<and>
      s' ! copyOfPrimes vars = [100, 3, 5, 7, 11] \<and>
      take (length s) s' = s"
    using ArrayBasics_store [of s]
    by (cases "ArrayBasics s") (simp add: nth_append)
next
  assume "p < length s"
  then show "case new (s ! p) s of (c, s1) \<Rightarrow>
         c \<noteq> p \<and> s1 ! c = s ! p \<and> s1[c := (s1 ! c)[i := v]] ! p = s ! p"
    by (cases "new (s ! p) s") (auto dest: new_copy [where i = i and v = v])
next
  assume big: "bigArray < length s \<and> length (s ! bigArray) = 1000000"
  show copy: "modifyArrayCopy (s ! bigArray) s = s @ [(s ! bigArray)[0 := 999]]"
    by (simp add: modifyArrayCopy_def new_def)
  show "modifyArrayCopy (s ! bigArray) s ! bigArray = s ! bigArray"
    using big by (simp add: copy nth_append)
  show "take (length s) (modifyArrayCopy (s ! bigArray) s) = s"
    by (simp add: copy)
  show "\<exists>s'. modifyArrayPointer bigArray s = Inr s' \<and>
         s' = s[bigArray := (s ! bigArray)[0 := 999]] \<and>
         s' ! bigArray ! 0 = 999 \<and>
         (\<forall>i. i \<noteq> 0 \<longrightarrow> s' ! bigArray ! i = s ! bigArray ! i)"
    using big by (simp add: modifyArrayPointer_def modify_def)
qed

theorem array_copies_witness:
  "modifyArrayCopy ((replicate 1000000 0)[0 := 42]) [(replicate 1000000 0)[0 := 42]] ! 0 ! 0 = 42 \<and>
   map_sum id (\<lambda>s. s ! 0 ! 0) (modifyArrayPointer 0 [(replicate 1000000 0)[0 := 42]]) = Inr 999"
proof -
  let ?bigArray = "(replicate 1000000 0)[0 := 42] :: go_int list"
  have "(0 :: nat) < length [?bigArray] \<and> length ([?bigArray] ! 0) = 1000000" by simp
  with array_copies [of "[?bigArray]" 0 0 ]
  have "modifyArrayCopy ([?bigArray] ! 0) [?bigArray] ! 0 = [?bigArray] ! 0"
    and "\<exists>s'. modifyArrayPointer 0 [?bigArray] = Inr s' \<and> s' ! 0 ! 0 = 999"
    by blast+
  then show ?thesis by auto
qed


text \<open>The text that \<open>ArrayBasics\<close> prints.\<close>

lemma ArrayBasics_output:
  "snd (snd (ArrayBasics [])) =
     ''  Zero-initialized array: [0 0 0 0 0]\<newline>'' @
     ''  Initialized array: [2 3 5 7 11]\<newline>'' @
     ''  Auto-sized array (len=3): [red green blue]\<newline>'' @
     ''  Sparse array: [0 10 0 0 0 50 0 0 0 90]\<newline>'' @
     ''  First prime: 2, Last prime: 11\<newline>'' @
     ''  After modification: [0 0 42 0 0]\<newline>'' @
     ''  Original primes: [2 3 5 7 11]\<newline>'' @
     ''  Copy of primes: [100 3 5 7 11]\<newline>'' @
     ''  Squares: 0:4 1:9 2:25 3:49 4:121 \<newline>''"
  by (simp add: ArrayBasics_def new_def Let_def format_ints_def format_strings_def
      format_d_def decimal.simps)

subsection \<open>The channel\<close>

lemma invariant_init: "invariant RangeOverChannel_init"
  by (simp add: invariant_def producer_inv_def consumer_inv_def RangeOverChannel_init_def
      make_chan_def)

lemma sent_length: "invariant s \<Longrightarrow> length (sent s) \<le> 5"
  by (auto simp add: invariant_def producer_inv_def split: producer_pc.splits)

lemma buf_length: "invariant s \<Longrightarrow> length (received s) + length (buf (numbers' s)) = length (sent s)"
  by (metis invariant_def length_append)


lemma buf_le_sent: "invariant s \<Longrightarrow> length (buf (numbers' s)) \<le> length (sent s)"
  using buf_length [of s] by simp

lemma producer_loop_step:
  assumes inv: "invariant s" and pc: "producer s = P_loop i"
    and step: "producer_step s = Some t"
  shows "invariant t \<and> rank t < rank s"
proof -
  from inv pc have open': "\<not> is_closed (numbers' s)"
    and cases: "(i, sent s) \<in> {(1, []), (2, [10]), (3, [10, 20]), (4, [10, 20, 30]),
                         (5, [10, 20, 30, 40]), (6, [10, 20, 30, 40, 50])}"
    and cap: "cap (numbers' s) = 5" and hist: "received s @ buf (numbers' s) = sent s"
    and cons: "consumer_inv s"
    by (simp_all add: invariant_def producer_inv_def)
  from cons open' have c: "consumer s \<noteq> C_after" "consumer s \<noteq> C_done"
    by (auto simp add: consumer_inv_def)
  have len: "length (buf (numbers' s)) \<le> length (sent s)" using inv by (rule buf_le_sent)
  show ?thesis
  proof (cases "i = 6")
    case True
    with step pc open' have t: "t = s\<lparr>producer := P_done,
        numbers' := (numbers' s)\<lparr>is_closed := True\<rparr>\<rparr>"
      by (simp add: producer_step_def close_def word_sle_eq)
    from True cases have "sent s = [10, 20, 30, 40, 50]" by simp
    with c cap hist have "invariant t"
      by (simp add: t invariant_def producer_inv_def consumer_inv_def split: consumer_pc.splits)
    moreover have "rank t < rank s"
      by (simp add: t rank_def producer_rank_def pc True)
    ultimately show ?thesis ..
  next
    case False
    with cases have small: "(i, sent s) \<in> {(1, []), (2, [10]), (3, [10, 20]), (4, [10, 20, 30]),
                         (5, [10, 20, 30, 40])}"
      by auto
    then have le: "i \<le>s 5" and sint: "1 \<le> sint i" "sint i \<le> 5" and short: "length (sent s) < 5"
      by (auto simp add: word_sle_eq)
    from short len cap have room: "length (buf (numbers' s)) < cap (numbers' s)" by simp
    with step pc open' le have t: "t = s\<lparr>producer := P_print i,
        numbers' := (numbers' s)\<lparr>buf := buf (numbers' s) @ [i * 10]\<rparr>,
        sent := sent s @ [i * 10]\<rparr>"
      by (simp add: producer_step_def send_def)
    from small have "(i, sent s @ [i * 10]) \<in> {(1, [10]), (2, [10, 20]), (3, [10, 20, 30]),
                         (4, [10, 20, 30, 40]), (5, [10, 20, 30, 40, 50])}"
      by auto
    with c cap hist open' have "invariant t"
      by (simp add: t invariant_def producer_inv_def consumer_inv_def split: consumer_pc.splits)
    moreover have "rank t < rank s"
      using sint by (simp add: t rank_def producer_rank_def pc)
    ultimately show ?thesis ..
  qed
qed

lemma producer_print_step:
  assumes inv: "invariant s" and pc: "producer s = P_print i"
    and step: "producer_step s = Some t"
  shows "invariant t \<and> rank t < rank s"
proof -
  from inv pc have open': "\<not> is_closed (numbers' s)"
    and cases: "(i, sent s) \<in> {(1, [10]), (2, [10, 20]), (3, [10, 20, 30]),
                         (4, [10, 20, 30, 40]), (5, [10, 20, 30, 40, 50])}"
    and cap: "cap (numbers' s) = 5" and hist: "received s @ buf (numbers' s) = sent s"
    and cons: "consumer_inv s"
    by (simp_all add: invariant_def producer_inv_def)
  from step pc have t: "t = s\<lparr>producer := P_loop (i + 1),
      printed := printed s @ ''  Sent: '' @ format_d (i * 10) @ ''\<newline>''\<rparr>"
    by (simp add: producer_step_def)
  from cases have "(i + 1, sent s) \<in> {(1, []), (2, [10]), (3, [10, 20]), (4, [10, 20, 30]),
                         (5, [10, 20, 30, 40]), (6, [10, 20, 30, 40, 50])}"
    by auto
  with cons cap hist open' have "invariant t"
    by (simp add: t invariant_def producer_inv_def consumer_inv_def split: consumer_pc.splits)
  moreover from cases have "sint (i + 1) = sint i + 1" "sint i \<le> 5"
    by auto
  then have "rank t < rank s"
    by (simp add: t rank_def producer_rank_def pc)
  ultimately show ?thesis ..
qed

lemma producer_step_invariant:
  assumes "invariant s" and "producer_step s = Some t"
  shows "invariant t \<and> rank t < rank s"
proof (cases "producer s")
  case (P_loop i)
  from assms(1) this assms(2) show ?thesis by (rule producer_loop_step)
next
  case (P_print i)
  from assms(1) this assms(2) show ?thesis by (rule producer_print_step)
next
  case P_done
  with assms show ?thesis by (simp add: producer_step_def)
next
  case (P_panic e)
  with assms show ?thesis by (simp add: producer_step_def)
qed


lemma invariantI:
  "producer_inv s \<Longrightarrow> consumer_inv s \<Longrightarrow> cap (numbers' s) = 5 \<Longrightarrow>
   received s @ buf (numbers' s) = sent s \<Longrightarrow> invariant s"
  by (simp add: invariant_def)

lemma consumer_local_step:
  assumes inv: "invariant s" and cons: "consumer_inv t"
    and same: "producer t = producer s" "numbers' t = numbers' s" "sent t = sent s"
      "received t = received s"
    and less: "consumer_rank (consumer t) (5 - length (received s))
      < consumer_rank (consumer s) (5 - length (received s))"
  shows "invariant t \<and> rank t < rank s"
proof
  from inv have prod: "producer_inv s"
    and cap: "cap (numbers' s) = 5" and hist: "received s @ buf (numbers' s) = sent s"
    by (simp_all add: invariant_def)
  show "invariant t"
  proof (rule invariantI)
    show "producer_inv t" using prod unfolding producer_inv_def same .
    show "consumer_inv t" by (rule cons)
    show "cap (numbers' t) = 5" using cap by (simp add: same)
    show "received t @ buf (numbers' t) = sent t" using hist by (simp add: same)
  qed
  show "rank t < rank s" using less by (simp add: rank_def same)
qed

lemma consumer_range_step:
  assumes inv: "invariant s" and step: "consumer_step s = Some t"
    and pc: "consumer s = C_range"
  shows "invariant t \<and> rank t < rank s"
proof (cases "buf (numbers' s)")
  case Nil
  with step pc have closed: "is_closed (numbers' s)" and t: "t = s\<lparr>consumer := C_after\<rparr>"
    by (simp_all add: consumer_step_def range_recv_def split: if_splits)
  show ?thesis using inv
  proof (rule consumer_local_step)
    show "consumer_inv t" using closed Nil by (simp add: t consumer_inv_def)
    show "consumer_rank (consumer t) (5 - length (received s))
        < consumer_rank (consumer s) (5 - length (received s))"
      by (simp add: t pc consumer_rank_def)
  qed (simp_all add: t)
next
  case (Cons v vs)
  from inv have prod: "producer_inv s"
    and cap: "cap (numbers' s) = 5" and hist: "received s @ buf (numbers' s) = sent s"
    by (simp_all add: invariant_def)
  from step pc Cons have t: "t = s\<lparr>consumer := C_body v,
      numbers' := (numbers' s)\<lparr>buf := vs\<rparr>, received := received s @ [v]\<rparr>"
    by (simp add: consumer_step_def range_recv_def)
  from inv have "length (sent s) \<le> 5" by (rule sent_length)
  moreover have "length (received s) + length (buf (numbers' s)) = length (sent s)"
    using inv by (rule buf_length)
  ultimately have short: "length (received s) < 5"
    by (simp add: Cons)
  have "invariant t"
  proof (rule invariantI)
    show "producer_inv t" using prod
      by (simp add: t producer_inv_def split: producer_pc.splits)
    show "consumer_inv t" by (simp add: t consumer_inv_def)
    show "cap (numbers' t) = 5" using cap by (simp add: t)
    show "received t @ buf (numbers' t) = sent t"
      using hist by (simp add: t Cons)
  qed
  moreover have "rank t < rank s" using short
    by (simp add: t rank_def consumer_rank_def pc)
  ultimately show ?thesis ..
qed

lemma consumer_step_invariant:
  assumes inv: "invariant s" and step: "consumer_step s = Some t"
  shows "invariant t \<and> rank t < rank s"
proof (cases "consumer s")
  case C_sleep
  with step have t: "t = s\<lparr>consumer := C_header\<rparr>" by (simp add: consumer_step_def)
  show ?thesis using inv
    by (rule consumer_local_step) (simp_all add: t C_sleep consumer_inv_def consumer_rank_def)
next
  case C_header
  with step have t: "t = s\<lparr>consumer := C_range,
      printed := printed s @ ''  Receiving values:\<newline>''\<rparr>"
    by (simp add: consumer_step_def)
  show ?thesis using inv
    by (rule consumer_local_step) (simp_all add: t C_header consumer_inv_def consumer_rank_def)
next
  case C_range
  with inv step show ?thesis by (rule consumer_range_step)
next
  case (C_body num)
  with step have t: "t = s\<lparr>consumer := C_pause,
      printed := printed s @ ''    Received: '' @ format_d num @ ''\<newline>''\<rparr>"
    by (simp add: consumer_step_def)
  show ?thesis using inv
    by (rule consumer_local_step) (simp_all add: t C_body consumer_inv_def consumer_rank_def)
next
  case C_pause
  with step have t: "t = s\<lparr>consumer := C_range\<rparr>" by (simp add: consumer_step_def)
  show ?thesis using inv
    by (rule consumer_local_step) (simp_all add: t C_pause consumer_inv_def consumer_rank_def)
next
  case C_after
  with step have t: "t = s\<lparr>consumer := C_done,
      printed := printed s @ ''  Channel closed, range loop ended\<newline>''\<rparr>"
    by (simp add: consumer_step_def)
  from inv C_after have "is_closed (numbers' s) \<and> buf (numbers' s) = []"
    by (simp add: invariant_def consumer_inv_def)
  then have "consumer_inv t" by (simp add: t consumer_inv_def)
  with inv show ?thesis
    by (rule consumer_local_step) (simp_all add: t C_after consumer_rank_def)
next
  case C_done
  with step show ?thesis by (simp add: consumer_step_def)
qed

lemma steps_invariant:
  assumes "invariant s" and "t \<in> set (steps s)"
  shows "invariant t \<and> rank t < rank s"
proof -
  from assms(2) have "producer_step s = Some t \<or> consumer_step s = Some t"
    by (auto simp add: steps_def split: if_splits option.splits)
  with assms(1) show ?thesis
    using producer_step_invariant consumer_step_invariant by blast
qed

lemma reachable_invariant: "reachable s \<Longrightarrow> invariant s"
  by (induction rule: reachable.induct) (simp_all add: invariant_init steps_invariant)

lemma invariant_closed:
  assumes "invariant s"
  shows "is_closed (numbers' s) \<longleftrightarrow> producer s = P_done"
  using assms by (auto simp add: invariant_def producer_inv_def split: producer_pc.splits)

lemma invariant_sent:
  assumes "invariant s"
  shows "\<exists>n\<le>5. sent s = take n [10, 20, 30, 40, 50]"
proof -
  from assms have "sent s \<in> {[], [10], [10, 20], [10, 20, 30], [10, 20, 30, 40],
      [10, 20, 30, 40, 50]}"
    by (auto simp add: invariant_def producer_inv_def split: producer_pc.splits)
  then have "length (sent s) \<le> 5 \<and> sent s = take (length (sent s)) [10, 20, 30, 40, 50]"
    by auto
  then show ?thesis by blast
qed

lemma invariant_done:
  assumes "invariant s" and "is_closed (numbers' s)"
  shows "sent s = [10, 20, 30, 40, 50]"
  using assms by (auto simp add: invariant_def producer_inv_def split: producer_pc.splits)

lemma invariant_after:
  assumes "invariant s" and "consumer s = C_after \<or> consumer s = C_done"
  shows "is_closed (numbers' s) \<and> received s = [10, 20, 30, 40, 50]"
proof -
  from assms have c: "is_closed (numbers' s)" and e: "buf (numbers' s) = []"
    by (auto simp add: invariant_def consumer_inv_def)
  from assms(1) c have "sent s = [10, 20, 30, 40, 50]" by (rule invariant_done)
  with assms(1) e c show ?thesis by (simp add: invariant_def)
qed

lemma invariant_progress:
  assumes inv: "invariant s" and stuck: "steps s = []"
  shows "producer s = P_done \<and> consumer s = C_done"
proof -
  from inv have "\<not> crashed s"
    by (auto simp add: invariant_def producer_inv_def crashed_def split: producer_pc.splits)
  with stuck have p: "producer_step s = None" and c: "consumer_step s = None"
    by (auto simp add: steps_def split: option.splits)
  from c have c': "consumer s = C_done \<or>
      (consumer s = C_range \<and> buf (numbers' s) = [] \<and> \<not> is_closed (numbers' s))"
    by (auto simp add: consumer_step_def range_recv_def
        split: consumer_pc.splits list.splits if_splits option.splits)
  show ?thesis
  proof (cases "consumer s = C_done")
    case True
    with inv have "is_closed (numbers' s)" by (simp add: invariant_def consumer_inv_def)
    with inv have "producer s = P_done" by (simp add: invariant_closed)
    with True show ?thesis by simp
  next
    case False
    with c' have empty: "buf (numbers' s) = []" and open': "\<not> is_closed (numbers' s)" by simp_all
    from inv have cap: "cap (numbers' s) = 5" and pi: "producer_inv s"
      by (simp_all add: invariant_def)
    have False
    proof (cases "producer s")
      case (P_loop i)
      with empty cap have "producer_step s \<noteq> None"
        by (simp add: producer_step_def send_def close_def)
      with p show False by simp
    next
      case (P_print i)
      then have "producer_step s \<noteq> None" by (simp add: producer_step_def)
      with p show False by simp
    next
      case P_done
      with inv have "is_closed (numbers' s)" by (simp add: invariant_closed)
      with open' show False by simp
    next
      case (P_panic e)
      with pi show False by (simp add: producer_inv_def)
    qed
    then show ?thesis ..
  qed
qed


lemma producer_never_blocked:
  assumes inv: "invariant s" and pc: "producer s = P_loop i"
  shows "producer_step s \<noteq> None"
proof (cases "i \<le>s 5")
  case True
  from inv pc have open': "\<not> is_closed (numbers' s)"
    and cases: "(i, sent s) \<in> {(1, []), (2, [10]), (3, [10, 20]), (4, [10, 20, 30]),
                         (5, [10, 20, 30, 40]), (6, [10, 20, 30, 40, 50])}"
    and cap: "cap (numbers' s) = 5"
    by (simp_all add: invariant_def producer_inv_def)
  from cases True have "length (sent s) < 5" by (auto simp add: word_sle_eq)
  moreover have "length (buf (numbers' s)) \<le> length (sent s)" using inv by (rule buf_le_sent)
  ultimately have "length (buf (numbers' s)) < cap (numbers' s)" using cap by simp
  with pc True open' show ?thesis by (simp add: producer_step_def send_def)
next
  case False
  with pc show ?thesis by (simp add: producer_step_def close_def)
qed

lemma run_reachable: "reachable s \<Longrightarrow> run gs s = Some t \<Longrightarrow> reachable t"
proof (induction gs arbitrary: s)
  case Nil
  then show ?case by simp
next
  case (Cons g gs)
  from Cons.prems(2) obtain u where
    live: "\<not> crashed s" and
    u: "(case g of Producer \<Rightarrow> producer_step s | Consumer \<Rightarrow> consumer_step s) = Some u" and
    rest: "run gs u = Some t"
    by (auto split: if_splits option.splits)
  from u live have "u \<in> set (steps s)"
    by (cases g) (auto simp add: steps_def split: option.splits)
  with Cons.prems(1) have "reachable u" by (rule reachable.step)
  then show ?case using rest by (rule Cons.IH)
qed

lemma terminating: "wf {(t, s). reachable s \<and> t \<in> set (steps s)}"
proof (rule wf_subset)
  show "wf (measure rank)" by simp
  show "{(t, s). reachable s \<and> t \<in> set (steps s)} \<subseteq> measure rank"
    using reachable_invariant steps_invariant by auto
qed

text \<open>
  C5. \<open>RangeOverChannel\<close> has one producer goroutine and one channel, of capacity 5.
  Under every interleaving of the two goroutines: no run goes on forever; what the
  producer has sent is always a prefix of 10, 20, 30, 40, 50, the channel is closed
  exactly when the producer has finished, and then all five values have been sent; the
  values received, followed by those waiting in the buffer, are the values sent, in
  order; the consumer leaves its \<open>range\<close> loop only with the channel closed and having
  received exactly 10, 20, 30, 40, 50; the only state in which nothing can move is the
  one where both goroutines have finished; and the producer is never blocked at a send,
  the buffer having room for all five values.
\<close>

theorem RangeOverChannel_spec:
  "wf {(t, s). reachable s \<and> t \<in> set (steps s)} \<and>
   (reachable s \<longrightarrow>
      cap (numbers' s) = 5 \<and>
      (\<exists>n\<le>5. sent s = take n [10, 20, 30, 40, 50]) \<and>
      (is_closed (numbers' s) \<longleftrightarrow> producer s = P_done) \<and>
      (is_closed (numbers' s) \<longrightarrow> sent s = [10, 20, 30, 40, 50]) \<and>
      received s @ buf (numbers' s) = sent s \<and>
      (consumer s = C_after \<or> consumer s = C_done \<longrightarrow>
         is_closed (numbers' s) \<and> received s = [10, 20, 30, 40, 50]) \<and>
      (steps s = [] \<longrightarrow> producer s = P_done \<and> consumer s = C_done) \<and>
      (\<forall>t \<in> set (steps s). rank t < rank s) \<and>
      (\<forall>i. producer s = P_loop i \<longrightarrow> producer_step s \<noteq> None))"
proof (intro conjI impI allI)
  show "wf {(t, s). reachable s \<and> t \<in> set (steps s)}" by (rule terminating)
next
  assume "reachable s"
  then show "cap (numbers' s) = 5"
    using reachable_invariant [of s] by (simp add: invariant_def)
next
  assume "reachable s"
  then show "\<exists>n\<le>5. sent s = take n [10, 20, 30, 40, 50]"
    by (intro invariant_sent reachable_invariant)
next
  assume "reachable s"
  then show "is_closed (numbers' s) \<longleftrightarrow> producer s = P_done"
    by (intro invariant_closed reachable_invariant)
next
  assume "reachable s" and "is_closed (numbers' s)"
  then show "sent s = [10, 20, 30, 40, 50]"
    by (intro invariant_done reachable_invariant)
next
  assume "reachable s"
  then show "received s @ buf (numbers' s) = sent s"
    using reachable_invariant [of s] by (simp add: invariant_def)
next
  assume "reachable s" and "consumer s = C_after \<or> consumer s = C_done"
  then show "is_closed (numbers' s)"
    using invariant_after [of s] reachable_invariant [of s] by simp
next
  assume "reachable s" and "consumer s = C_after \<or> consumer s = C_done"
  then show "received s = [10, 20, 30, 40, 50]"
    using invariant_after [of s] reachable_invariant [of s] by simp
next
  assume "reachable s" and "steps s = []"
  then show "producer s = P_done"
    using invariant_progress [of s] reachable_invariant [of s] by simp
next
  assume "reachable s" and "steps s = []"
  then show "consumer s = C_done"
    using invariant_progress [of s] reachable_invariant [of s] by simp
next
  assume "reachable s"
  then show "\<forall>t \<in> set (steps s). rank t < rank s"
    using steps_invariant [of s] reachable_invariant [of s] by simp
next
  fix i
  assume "reachable s" and "producer s = P_loop i"
  then show "producer_step s \<noteq> None"
    by (intro producer_never_blocked reachable_invariant)
qed

lemma sleep_schedule_list:
  "sleep_schedule =
     [Producer, Producer, Producer, Producer, Producer, Producer, Producer, Producer,
      Producer, Producer, Producer,
      Consumer, Consumer, Consumer, Consumer, Consumer, Consumer, Consumer, Consumer,
      Consumer, Consumer, Consumer, Consumer, Consumer, Consumer, Consumer, Consumer,
      Consumer, Consumer, Consumer]"
  by (simp add: sleep_schedule_def eval_nat_numeral)

lemma producer_first:
  "run sleep_schedule RangeOverChannel_init =
     Some \<lparr>producer = P_done, consumer = C_done,
       numbers' = \<lparr>buf = [], cap = 5, is_closed = True\<rparr>,
       sent = [10, 20, 30, 40, 50], received = [10, 20, 30, 40, 50],
       printed =
         ''Range over Channel:\<newline>'' @
         ''  Sent: 10\<newline>  Sent: 20\<newline>  Sent: 30\<newline>  Sent: 40\<newline>  Sent: 50\<newline>'' @
         ''  Receiving values:\<newline>'' @
         ''    Received: 10\<newline>    Received: 20\<newline>    Received: 30\<newline>'' @
         ''    Received: 40\<newline>    Received: 50\<newline>'' @
         ''  Channel closed, range loop ended\<newline>''\<rparr>"
  by (simp add: sleep_schedule_list RangeOverChannel_init_def make_chan_def producer_step_def
      consumer_step_def crashed_def send_def close_def range_recv_def format_d_def
      decimal.simps word_sle_eq)


theorem RangeOverChannel_spec_witness:
  "map_option received (run sleep_schedule RangeOverChannel_init) = Some [10, 20, 30, 40, 50] \<and>
   map_option sent (run sleep_schedule RangeOverChannel_init) = Some [10, 20, 30, 40, 50] \<and>
   map_option steps (run sleep_schedule RangeOverChannel_init) = Some []"
proof -
  obtain fin where fin: "run sleep_schedule RangeOverChannel_init = Some fin"
    and pc: "consumer fin = C_done" and ppc: "producer fin = P_done"
    using producer_first by simp
  from reachable.init fin have r: "reachable fin" by (rule run_reachable)
  with RangeOverChannel_spec [of fin] pc
  have "received fin = [10, 20, 30, 40, 50]" "sent fin = [10, 20, 30, 40, 50]" by auto
  moreover have "steps fin = []"
    by (simp add: steps_def producer_step_def consumer_step_def pc ppc)
  ultimately show ?thesis by (simp add: fin)
qed

end
